theory Spec2Isabelle
  imports Main "HOL-Library.Product_Lexorder" "HOL-Library.List_Lexorder" "HOL-Library.Char_ord"
begin

section \<open>Data model of \<open>virus_genealogy.h\<close>\<close>

text \<open>
  The three exception classes of the header, and \<open>std::bad_alloc\<close> for the container
  insertions that may fail for lack of memory (it derives from \<open>std::exception\<close>, so the
  \<open>catch (std::exception &)\<close> handlers of the header see it).
\<close>

datatype error = VirusNotFound | VirusAlreadyCreated | TriedToRemoveStemVirus | BadAlloc

text \<open>
  A \<open>std::shared_ptr<Virus>\<close> is the address of the \<open>Virus\<close> object together with the
  identifier that object was built from (\<open>child->get_id()\<close> is the second component).
  \<open>std::set<std::shared_ptr<Virus>>\<close> is ordered by address; the lexicographic order on
  pairs is that order whenever different objects have different addresses.
\<close>

type_synonym 'id handle = "nat \<times> 'id"

record 'id node =
  virus :: "'id handle"
  parent_ids :: "'id set"
  children_virus_ptrs :: "'id handle set"

type_synonym 'id table = "'id \<rightharpoonup> 'id node"

record 'id genealogy =
  stem_id :: 'id
  graph :: "'id table"

text \<open>
  A call returns, throws (leaving a state behind), or runs into undefined behaviour of
  C++ (dereferencing \<open>end()\<close> or an iterator whose element has been erased).
\<close>

datatype 'a outcome = Returns 'a | Throws error 'a | Undefined

fun lift :: "'id genealogy \<Rightarrow> 'id table outcome \<Rightarrow> 'id genealogy outcome" where
  "lift vg (Returns g) = Returns (vg\<lparr>graph := g\<rparr>)"
| "lift vg (Throws e g) = Throws e (vg\<lparr>graph := g\<rparr>)"
| "lift vg Undefined = Undefined"

text \<open>\<open>Node(virus_id)\<close>: \<open>make_shared\<close> returns the address \<open>a\<close>.\<close>

definition Node :: "nat \<Rightarrow> 'id \<Rightarrow> 'id node" where
  "Node a virus_id = \<lparr>virus = (a, virus_id), parent_ids = {}, children_virus_ptrs = {}\<rparr>"

definition VirusGenealogy :: "nat \<Rightarrow> 'id \<Rightarrow> 'id genealogy" where
  "VirusGenealogy a stem = \<lparr>stem_id = stem, graph = [stem \<mapsto> Node a stem]\<rparr>"

definition get_stem_id :: "'id genealogy \<Rightarrow> 'id" where
  "get_stem_id vg = stem_id vg"

definition exists :: "'id \<Rightarrow> 'id genealogy \<Rightarrow> bool" where
  "exists vid vg = (graph vg vid \<noteq> None)"

definition get_parents :: "('id::linorder) \<Rightarrow> 'id genealogy \<Rightarrow> error + 'id list" where
  "get_parents vid vg =
     (case graph vg vid of
        None \<Rightarrow> Inl VirusNotFound
      | Some nd \<Rightarrow> Inr (sorted_list_of_set (parent_ids nd)))"

text \<open>An update through a table iterator (\<open>it->second\<close>) that points to an entry.\<close>

definition modify :: "'id \<Rightarrow> ('id node \<Rightarrow> 'id node) \<Rightarrow> 'id table \<Rightarrow> 'id table" where
  "modify k f g = (case g k of None \<Rightarrow> g | Some nd \<Rightarrow> g(k \<mapsto> f nd))"

section \<open>create\<close>

text \<open>
  Failure injection for the \<open>try\<close> block of \<open>create\<close> (lines 195 to 200): for the
  parent at position \<open>k\<close>, the insertion into its child set throws (line 197), or that
  insertion is done and \<open>edges_to_parents.push_back\<close> throws (line 198); or the insertion
  into the table throws (line 200). The allocations before the \<open>try\<close> block (lines 185,
  188 and 192) throw before the table is touched and leave the object as it was; they are
  not part of the model.
\<close>

datatype create_fault = Child_Insert_Fails nat | Push_Back_Fails nat | Table_Insert_Fails

text \<open>Lines 180 to 186: every parent identifier is looked up.\<close>

fun find_parents :: "'id table \<Rightarrow> 'id list \<Rightarrow> bool" where
  "find_parents g [] = True"
| "find_parents g (parent_id # rest) =
     (case g parent_id of None \<Rightarrow> False | Some pn \<Rightarrow> find_parents g rest)"

text \<open>
  Lines 196 to 199: the handle goes into the child set of each parent in turn, and the
  iterator is pushed to \<open>edges_to_parents\<close>; the result carries the table, the number of
  iterators pushed, and whether a step threw. When \<open>push_back\<close> throws, the insertion of
  line 197 has been done and its iterator is not recorded.
\<close>

fun insert_edges ::
  "create_fault option \<Rightarrow> 'id handle \<Rightarrow> 'id list \<Rightarrow> nat \<Rightarrow> 'id table \<Rightarrow> 'id table \<times> nat \<times> bool" where
  "insert_edges fault h [] k g = (g, k, False)"
| "insert_edges fault h (parent_id # rest) k g =
     (if fault = Some (Child_Insert_Fails k) then (g, k, True)
      else
        let g1 = modify parent_id
                   (\<lambda>nd. nd\<lparr>children_virus_ptrs := insert h (children_virus_ptrs nd)\<rparr>) g
        in if fault = Some (Push_Back_Fails k) then (g1, k, True)
           else insert_edges fault h rest (Suc k) g1)"

text \<open>
  Lines 202 to 204: \<open>erase(edges_to_parents[i])\<close> erases by iterator, which is defined only
  while the element the iterator points to is still in the set.
\<close>

fun undo_edges :: "'id handle \<Rightarrow> 'id list \<Rightarrow> 'id table \<Rightarrow> 'id table option" where
  "undo_edges h [] g = Some g"
| "undo_edges h (parent_id # rest) g =
     (case g parent_id of
        None \<Rightarrow> None
      | Some pn \<Rightarrow>
          if h \<in> children_virus_ptrs pn
          then undo_edges h rest
                 (g(parent_id \<mapsto> pn\<lparr>children_virus_ptrs := children_virus_ptrs pn - {h}\<rparr>))
          else None)"

definition create_table ::
  "nat \<Rightarrow> create_fault option \<Rightarrow> 'id \<Rightarrow> 'id list \<Rightarrow> 'id table \<Rightarrow> 'id table outcome" where
  "create_table a fault vid parent_ids_arg g =
     (if parent_ids_arg = [] then Returns g
      else if g vid \<noteq> None then Throws VirusAlreadyCreated g
      else if \<not> find_parents g parent_ids_arg then Throws VirusNotFound g
      else
        let new_node = (Node a vid)\<lparr>parent_ids := set parent_ids_arg\<rparr>;
            (g1, n, threw) = insert_edges fault (virus new_node) parent_ids_arg 0 g
        in if threw \<or> fault = Some Table_Insert_Fails
           then (case undo_edges (virus new_node) (take n parent_ids_arg) g1 of
                   None \<Rightarrow> Undefined
                 | Some g2 \<Rightarrow> Throws BadAlloc g2)
           else Returns (g1(vid \<mapsto> new_node)))"

definition create ::
  "nat \<Rightarrow> create_fault option \<Rightarrow> 'id \<Rightarrow> 'id list \<Rightarrow> 'id genealogy \<Rightarrow> 'id genealogy outcome" where
  "create a fault vid parent_ids_arg vg = lift vg (create_table a fault vid parent_ids_arg (graph vg))"

section \<open>connect\<close>

text \<open>
  Failure injection for \<open>connect\<close>: the insertion of the parent identifier (line 229)
  throws, or the insertion into the child set of the parent (line 234) throws.
\<close>

datatype connect_fault = Parent_Id_Insert_Fails | Child_Ptr_Insert_Fails

definition connect_table ::
  "connect_fault option \<Rightarrow> 'id \<Rightarrow> 'id \<Rightarrow> 'id table \<Rightarrow> 'id table outcome" where
  "connect_table fault child_id parent_id g =
     (case g child_id of
        None \<Rightarrow> Throws VirusNotFound g
      | Some cn \<Rightarrow>
         (case g parent_id of
            None \<Rightarrow> Throws VirusNotFound g
          | Some pn \<Rightarrow>
              if parent_id \<in> parent_ids cn then Returns g
              else if fault = Some Parent_Id_Insert_Fails then Throws BadAlloc g
              else
                let g1 = modify child_id (\<lambda>nd. nd\<lparr>parent_ids := insert parent_id (parent_ids nd)\<rparr>) g
                in if fault = Some Child_Ptr_Insert_Fails
                   then Throws BadAlloc
                          (modify child_id (\<lambda>nd. nd\<lparr>parent_ids := parent_ids nd - {parent_id}\<rparr>) g1)
                   else Returns
                          (modify parent_id
                             (\<lambda>nd. nd\<lparr>children_virus_ptrs := insert (virus cn) (children_virus_ptrs nd)\<rparr>) g1)))"

definition connect ::
  "connect_fault option \<Rightarrow> 'id \<Rightarrow> 'id \<Rightarrow> 'id genealogy \<Rightarrow> 'id genealogy outcome" where
  "connect fault child_id parent_id vg = lift vg (connect_table fault child_id parent_id (graph vg))"

section \<open>remove\<close>

text \<open>
  Failure injection for \<open>remove\<close>. The identifier type and the containers may throw
  \<open>std::bad_alloc\<close> at three places: in the frame that removes \<open>vid\<close>, when the
  iterators of the parents are collected (lines 256 and 257, a copy of an identifier and
  \<open>push_back\<close>); in that frame, when the identifier of the child \<open>c\<close> is obtained
  (\<open>child->get_id()\<close>, line 261, outside the \<open>try\<close>); and in the handler of that frame,
  when \<open>vid\<close> is put back into the parent set of the child \<open>c\<close> (line 267). A fault
  names the frame by the identifier it removes and the child by its identifier, and strikes
  whenever that place is reached; a call of \<open>remove\<close> is given the set of its faults, so
  that a failure in a recursive call and a failure in the handler that catches it can
  strike in the same call. The comparison of identifiers is taken not to throw.
\<close>

datatype 'id remove_fault =
    Parent_Its_Fails 'id
  | Get_Id_Fails 'id 'id
  | Reinsert_Fails 'id 'id

text \<open>
  Lines 260 to 271, with the recursive call as a parameter and the children as the list of
  handles in the order of the set. \<open>child_node\<close> is dereferenced without a check
  (undefined when the child is not in the table); after a recursive call has returned the
  loop goes on reading the child set of \<open>it\<close> (undefined when the entry of \<open>vid\<close> has
  been erased), and in the handler \<open>child_node\<close> is dereferenced again (undefined when
  that entry has been erased). An exception thrown at line 261 leaves the frame without
  passing through its handler; one thrown by the re-insertion of line 267 replaces the
  exception being handled, and the parent set of the child stays as the recursive call left
  it. The source walks the set itself, not a copy; no recursive call changes a child set
  (lemma \<open>remove_fuel_same_children\<close> below), so the list taken on entry is what the loop
  sees.
\<close>

fun remove_children ::
  "('id \<Rightarrow> 'id table \<Rightarrow> 'id table outcome option) \<Rightarrow> 'id remove_fault set \<Rightarrow> 'id
     \<Rightarrow> 'id handle list \<Rightarrow> 'id table \<Rightarrow> 'id table outcome option" where
  "remove_children rec F vid [] g = Some (Returns g)"
| "remove_children rec F vid (child # rest) g =
     (if Get_Id_Fails vid (snd child) \<in> F then Some (Throws BadAlloc g)
      else case g (snd child) of
        None \<Rightarrow> Some Undefined
      | Some cn \<Rightarrow>
          let g1 = g(snd child \<mapsto> cn\<lparr>parent_ids := parent_ids cn - {vid}\<rparr>)
          in if parent_ids cn - {vid} = {}
             then (case rec (snd child) g1 of
                     None \<Rightarrow> None
                   | Some (Returns g2) \<Rightarrow>
                       if g2 vid = None then Some Undefined
                       else remove_children rec F vid rest g2
                   | Some (Throws e g2) \<Rightarrow>
                       (case g2 (snd child) of
                          None \<Rightarrow> Some Undefined
                        | Some cn2 \<Rightarrow>
                            if Reinsert_Fails vid (snd child) \<in> F then Some (Throws BadAlloc g2)
                            else Some (Throws e
                              (g2(snd child \<mapsto> cn2\<lparr>parent_ids := insert vid (parent_ids cn2)\<rparr>))))
                   | Some Undefined \<Rightarrow> Some Undefined)
             else remove_children rec F vid rest g1)"

text \<open>
  Lines 273 to 275: the iterators recorded in \<open>parent_its\<close> on entry are dereferenced;
  one that was \<open>end()\<close> or whose entry has been erased since is undefined, and so is
  \<open>it\<close> when the entry of \<open>vid\<close> has been erased.
\<close>

fun erase_from_parents :: "'id \<Rightarrow> 'id list \<Rightarrow> 'id table \<Rightarrow> 'id table option" where
  "erase_from_parents vid [] g = Some g"
| "erase_from_parents vid (parent_id # rest) g =
     (case g parent_id of
        None \<Rightarrow> None
      | Some pn \<Rightarrow>
         (case g vid of
            None \<Rightarrow> None
          | Some nd \<Rightarrow>
              erase_from_parents vid rest
                (g(parent_id \<mapsto> pn\<lparr>children_virus_ptrs := children_virus_ptrs pn - {virus nd}\<rparr>))))"

text \<open>
  \<open>remove\<close> is recursive with no bound in the source; the first argument bounds the depth
  of the recursion, and \<open>None\<close> means the bound was reached. The second argument is the
  set of faults; the loop of lines 256 to 258 runs, and can fail, only when the node has a
  parent.
\<close>

fun remove_fuel ::
  "nat \<Rightarrow> 'id remove_fault set \<Rightarrow> 'id \<Rightarrow> ('id::linorder) \<Rightarrow> 'id table
     \<Rightarrow> 'id table outcome option" where
  "remove_fuel 0 F stem vid g = None"
| "remove_fuel (Suc n) F stem vid g =
     (if vid = stem then Some (Throws TriedToRemoveStemVirus g)
      else case g vid of
        None \<Rightarrow> Some (Throws VirusNotFound g)
      | Some nd \<Rightarrow>
          let parent_its = sorted_list_of_set (parent_ids nd)
          in if parent_its \<noteq> [] \<and> Parent_Its_Fails vid \<in> F then Some (Throws BadAlloc g)
             else
              (case remove_children (remove_fuel n F stem) F vid
                     (sorted_list_of_set (children_virus_ptrs nd)) g of
                None \<Rightarrow> None
              | Some (Returns g1) \<Rightarrow>
                  (case erase_from_parents vid parent_its g1 of
                     None \<Rightarrow> Some Undefined
                   | Some g2 \<Rightarrow> Some (Returns (g2(vid := None))))
              | Some (Throws e g1) \<Rightarrow> Some (Throws e g1)
              | Some Undefined \<Rightarrow> Some Undefined))"

definition remove ::
  "nat \<Rightarrow> 'id remove_fault set \<Rightarrow> ('id::linorder) \<Rightarrow> 'id genealogy
     \<Rightarrow> 'id genealogy outcome option" where
  "remove n F vid vg = map_option (lift vg) (remove_fuel n F (stem_id vg) vid (graph vg))"

section \<open>Sequences of calls\<close>

text \<open>
  A client of the class makes calls one after the other. The address handed out by
  \<open>make_shared\<close>, the injected failures and the bound on the recursion of \<open>remove\<close> are
  part of the call.
\<close>

datatype 'id call =
    Create nat "create_fault option" 'id "'id list"
  | Connect "connect_fault option" 'id 'id
  | Remove nat "'id remove_fault set" 'id

fun run_call :: "('id::linorder) call \<Rightarrow> 'id genealogy \<Rightarrow> 'id genealogy outcome option" where
  "run_call (Create a fault vid parent_ids_arg) vg = Some (create a fault vid parent_ids_arg vg)"
| "run_call (Connect fault child_id parent_id) vg = Some (connect fault child_id parent_id vg)"
| "run_call (Remove n F vid) vg = remove n F vid vg"

text \<open>The object after a call that returned or threw.\<close>

fun state_after :: "'a outcome option \<Rightarrow> 'a option" where
  "state_after (Some (Returns s)) = Some s"
| "state_after (Some (Throws e s)) = Some s"
| "state_after (Some Undefined) = None"
| "state_after None = None"

fun run_calls :: "('id::linorder) call list \<Rightarrow> 'id genealogy \<Rightarrow> 'id genealogy option" where
  "run_calls [] vg = Some vg"
| "run_calls (c # cs) vg =
     (case state_after (run_call c vg) of None \<Rightarrow> None | Some vg' \<Rightarrow> run_calls cs vg')"

fun connects_child :: "'id \<Rightarrow> 'id call \<Rightarrow> bool" where
  "connects_child x (Connect fault child_id parent_id) = (child_id = x)"
| "connects_child x (Create a fault vid parent_ids_arg) = False"
| "connects_child x (Remove n F vid) = False"

section \<open>Invariants of the specification\<close>

text \<open>I1: every parent identifier of a node is in the table and has the node's handle as a child.\<close>

definition I1 :: "'id table \<Rightarrow> bool" where
  "I1 g = (\<forall>x nd p. g x = Some nd \<and> p \<in> parent_ids nd \<longrightarrow>
             (\<exists>pn. g p = Some pn \<and> virus nd \<in> children_virus_ptrs pn))"

text \<open>I2: the root is in the table and has no parents.\<close>

definition I2 :: "'id \<Rightarrow> 'id table \<Rightarrow> bool" where
  "I2 stem g = (\<exists>sn. g stem = Some sn \<and> parent_ids sn = {})"

text \<open>I3: every other node has a parent.\<close>

definition I3 :: "'id \<Rightarrow> 'id table \<Rightarrow> bool" where
  "I3 stem g = (\<forall>x nd. g x = Some nd \<and> x \<noteq> stem \<longrightarrow> parent_ids nd \<noteq> {})"

text \<open>
  I4: identifiers are unique across the table. The table is a map, so a key has one node;
  the \<open>Virus\<close> object of the node under a key carries that key.
\<close>

definition I4 :: "'id table \<Rightarrow> bool" where
  "I4 g = (\<forall>x nd. g x = Some nd \<longrightarrow> snd (virus nd) = x)"

text \<open>
  The other direction of I1: a handle in a child set is the handle of a node of the table
  that names the owner of the set as a parent.
\<close>

definition child_links :: "'id table \<Rightarrow> bool" where
  "child_links g = (\<forall>p pn h. g p = Some pn \<and> h \<in> children_virus_ptrs pn \<longrightarrow>
                      (\<exists>nd. g (snd h) = Some nd \<and> virus nd = h \<and> p \<in> parent_ids nd))"

text \<open>The containers of C++ are finite.\<close>

definition finite_sets :: "'id table \<Rightarrow> bool" where
  "finite_sets g = (finite (dom g) \<and>
     (\<forall>x nd. g x = Some nd \<longrightarrow> finite (parent_ids nd) \<and> finite (children_virus_ptrs nd)))"

text \<open>The edges that \<open>remove\<close> follows: from a node to the identifiers of its child handles.\<close>

definition child_rel :: "'id table \<Rightarrow> ('id \<times> 'id) set" where
  "child_rel g = {(p, c). \<exists>pn h. g p = Some pn \<and> h \<in> children_virus_ptrs pn \<and> snd h = c}"

text \<open>I5: no cycles.\<close>

definition I5 :: "'id table \<Rightarrow> bool" where
  "I5 g = acyclic (child_rel g)"

text \<open>The four invariants that the specification requires after every call.\<close>

definition invariants :: "'id \<Rightarrow> 'id table \<Rightarrow> bool" where
  "invariants stem g = (I1 g \<and> I2 stem g \<and> I3 stem g \<and> I4 g)"

definition wf_table :: "'id \<Rightarrow> 'id table \<Rightarrow> bool" where
  "wf_table stem g =
     (I1 g \<and> I2 stem g \<and> I3 stem g \<and> I4 g \<and> I5 g \<and> child_links g \<and> finite_sets g)"

definition well_formed :: "'id genealogy \<Rightarrow> bool" where
  "well_formed vg = wf_table (stem_id vg) (graph vg)"

text \<open>
  A fresh allocation: no handle that is still held by the table has address \<open>a\<close>, and no
  handle in a child set is \<open>(a, vid)\<close>.
\<close>

definition fresh_handle :: "nat \<Rightarrow> 'id \<Rightarrow> 'id table \<Rightarrow> bool" where
  "fresh_handle a vid g =
     (\<forall>q pn. g q = Some pn \<longrightarrow> fst (virus pn) \<noteq> a \<and> (a, vid) \<notin> children_virus_ptrs pn)"

text \<open>Inserting a handle into the child set of a parent, as \<open>create\<close> does in its loop.\<close>

definition add_child_handle :: "'id handle \<Rightarrow> 'id \<Rightarrow> 'id table \<Rightarrow> 'id table" where
  "add_child_handle h p g =
     modify p (\<lambda>nd. nd\<lparr>children_virus_ptrs := insert h (children_virus_ptrs nd)\<rparr>) g"

section \<open>Example genealogies\<close>

text \<open>
  The root \<open>S\<close> with the children \<open>A\<close> and \<open>B\<close>, as left by
  \<open>create("A", ["S"])\<close> and \<open>create("B", ["S"])\<close>.
\<close>

definition example_AB :: "string genealogy" where
  "example_AB =
     \<lparr>stem_id = ''S'',
      graph = [''S'' \<mapsto> \<lparr>virus = (0, ''S''), parent_ids = {},
                          children_virus_ptrs = {(1, ''A''), (2, ''B'')}\<rparr>,
               ''A'' \<mapsto> \<lparr>virus = (1, ''A''), parent_ids = {''S''}, children_virus_ptrs = {}\<rparr>,
               ''B'' \<mapsto> \<lparr>virus = (2, ''B''), parent_ids = {''S''}, children_virus_ptrs = {}\<rparr>]\<rparr>"

text \<open>
  What \<open>create("C", ["A", "B"])\<close> leaves of \<open>example_AB\<close> when \<open>push_back\<close> throws for
  the second parent: the child set of \<open>B\<close> holds the handle of a node that is not in the
  table.
\<close>

definition example_AB_stale :: "string genealogy" where
  "example_AB_stale =
     \<lparr>stem_id = ''S'',
      graph = [''S'' \<mapsto> \<lparr>virus = (0, ''S''), parent_ids = {},
                          children_virus_ptrs = {(1, ''A''), (2, ''B'')}\<rparr>,
               ''A'' \<mapsto> \<lparr>virus = (1, ''A''), parent_ids = {''S''}, children_virus_ptrs = {}\<rparr>,
               ''B'' \<mapsto> \<lparr>virus = (2, ''B''), parent_ids = {''S''},
                          children_virus_ptrs = {(3, ''C'')}\<rparr>]\<rparr>"

section \<open>What remove can change\<close>

text \<open>
  \<open>shrinks stem g g'\<close>: the table \<open>g'\<close> has the root if \<open>g\<close> has it; every node of
  \<open>g'\<close> is a node of \<open>g\<close> with the same handle and with no new child handle; and its
  parent set differs only if its identifier occurs in a child set of \<open>g\<close>.
\<close>

definition shrinks :: "'id \<Rightarrow> 'id table \<Rightarrow> 'id table \<Rightarrow> bool" where
  "shrinks stem g g' =
     ((g stem \<noteq> None \<longrightarrow> g' stem \<noteq> None) \<and>
      (\<forall>x nd'. g' x = Some nd' \<longrightarrow>
         (\<exists>nd. g x = Some nd \<and> virus nd' = virus nd \<and>
               children_virus_ptrs nd' \<subseteq> children_virus_ptrs nd \<and>
               (parent_ids nd' = parent_ids nd \<or> x \<in> Range (child_rel g)))))"

text \<open>The root has no parents, carries its key, and is in no child set.\<close>

definition root_clean :: "'id \<Rightarrow> 'id table \<Rightarrow> bool" where
  "root_clean stem g = (I2 stem g \<and> I4 g \<and> stem \<notin> Range (child_rel g))"

text \<open>The root \<open>S\<close> with one child \<open>X\<close>, as left by \<open>create("X", ["S"])\<close>.\<close>

definition example_SX :: "string genealogy" where
  "example_SX =
     \<lparr>stem_id = ''S'',
      graph = [''S'' \<mapsto> \<lparr>virus = (0, ''S''), parent_ids = {}, children_virus_ptrs = {(1, ''X'')}\<rparr>,
               ''X'' \<mapsto> \<lparr>virus = (1, ''X''), parent_ids = {''S''}, children_virus_ptrs = {}\<rparr>]\<rparr>"

text \<open>The same after \<open>connect("S", "X")\<close>, which makes the root a child of \<open>X\<close>.\<close>

definition example_root_child :: "string genealogy" where
  "example_root_child =
     \<lparr>stem_id = ''S'',
      graph = [''S'' \<mapsto> \<lparr>virus = (0, ''S''), parent_ids = {''X''},
                          children_virus_ptrs = {(1, ''X'')}\<rparr>,
               ''X'' \<mapsto> \<lparr>virus = (1, ''X''), parent_ids = {''S''},
                          children_virus_ptrs = {(0, ''S'')}\<rparr>]\<rparr>"

text \<open>
  The root \<open>S\<close> (at address 5), its child \<open>X\<close> (at address 1), and the children of
  \<open>X\<close>: \<open>C\<close> (at address 2) and, after \<open>connect("S", "X")\<close>, the root itself. In the
  child set of \<open>X\<close> the handle of \<open>C\<close> comes before the handle of \<open>S\<close>.
\<close>

definition example_siblings :: "string genealogy" where
  "example_siblings =
     \<lparr>stem_id = ''S'',
      graph = [''S'' \<mapsto> \<lparr>virus = (5, ''S''), parent_ids = {''X''},
                          children_virus_ptrs = {(1, ''X'')}\<rparr>,
               ''X'' \<mapsto> \<lparr>virus = (1, ''X''), parent_ids = {''S''},
                          children_virus_ptrs = {(2, ''C''), (5, ''S'')}\<rparr>,
               ''C'' \<mapsto> \<lparr>virus = (2, ''C''), parent_ids = {''X''}, children_virus_ptrs = {}\<rparr>]\<rparr>"

text \<open>What \<open>remove("X")\<close> leaves of it when it throws: \<open>C\<close> is gone.\<close>

definition example_siblings_after :: "string genealogy" where
  "example_siblings_after =
     \<lparr>stem_id = ''S'',
      graph = [''S'' \<mapsto> \<lparr>virus = (5, ''S''), parent_ids = {''X''},
                          children_virus_ptrs = {(1, ''X'')}\<rparr>,
               ''X'' \<mapsto> \<lparr>virus = (1, ''X''), parent_ids = {''S''},
                          children_virus_ptrs = {(2, ''C''), (5, ''S'')}\<rparr>]\<rparr>"

section \<open>What remove computes\<close>

text \<open>
  The nodes that can still be reached from the root by child edges once \<open>v\<close> and the edges
  at \<open>v\<close> are taken away.
\<close>

definition survivors :: "'id \<Rightarrow> 'id \<Rightarrow> 'id table \<Rightarrow> 'id set" where
  "survivors stem v g = {x. (stem, x) \<in> (child_rel g \<inter> {(p, c). p \<noteq> v \<and> c \<noteq> v})\<^sup>*}"

text \<open>The table cut down to a set of identifiers, with the edges between them.\<close>

definition restrict_table :: "'id set \<Rightarrow> 'id table \<Rightarrow> 'id table" where
  "restrict_table S g =
     (\<lambda>x. if x \<in> S
          then map_option
                 (\<lambda>nd. nd\<lparr>parent_ids := parent_ids nd \<inter> S,
                          children_virus_ptrs := {h \<in> children_virus_ptrs nd. snd h \<in> S}\<rparr>)
                 (g x)
          else None)"

section \<open>The states in the middle of a cascade\<close>

text \<open>The edge from \<open>p\<close> to \<open>x\<close> is live: \<open>x\<close> is in the table and still names \<open>p\<close>.\<close>

definition live :: "'id table \<Rightarrow> 'id \<Rightarrow> 'id \<Rightarrow> bool" where
  "live g p x = (\<exists>xn. g x = Some xn \<and> p \<in> parent_ids xn)"

text \<open>
  The table \<open>g\<close> in the middle of a \<open>remove\<close> that started on \<open>g0\<close>, with \<open>T\<close> the
  nodes whose loops over the children are running: nodes differ from those of \<open>g0\<close> by
  lost parents only; all child edges of a node outside \<open>T\<close> are live; parents are in the
  table; only the root and the nodes in \<open>T\<close> may be without parents; and the parents of an
  erased node are erased or in \<open>T\<close>.
\<close>

definition cascade_inv :: "'id \<Rightarrow> 'id table \<Rightarrow> 'id set \<Rightarrow> 'id table \<Rightarrow> bool" where
  "cascade_inv stem g0 T g =
     ((\<forall>x nd. g x = Some nd \<longrightarrow>
         (\<exists>n0. g0 x = Some n0 \<and> virus nd = virus n0 \<and>
               children_virus_ptrs nd = children_virus_ptrs n0 \<and>
               parent_ids nd \<subseteq> parent_ids n0)) \<and>
      (\<forall>p x. g p \<noteq> None \<and> p \<notin> T \<and> (p, x) \<in> child_rel g0 \<longrightarrow> live g p x) \<and>
      (\<forall>p x. live g p x \<longrightarrow> g p \<noteq> None) \<and>
      (\<forall>x nd. g x = Some nd \<and> x \<notin> T \<and> x \<noteq> stem \<longrightarrow> parent_ids nd \<noteq> {}) \<and>
      (\<forall>r p. g0 r \<noteq> None \<and> g r = None \<and> (p, r) \<in> child_rel g0 \<longrightarrow> g p = None \<or> p \<in> T))"

text \<open>
  What a cascade started at \<open>v\<close> may do to a table: erase descendants of \<open>v\<close> all of
  whose parents are descendants of \<open>v\<close>, and take descendants of \<open>v\<close> out of parent
  sets (\<open>v\<close> counts as a descendant of itself).
\<close>

definition frame :: "('id \<times> 'id) set \<Rightarrow> 'id \<Rightarrow> 'id table \<Rightarrow> 'id table \<Rightarrow> bool" where
  "frame R v g g' =
     ((\<forall>x nd. g x = Some nd \<and> g' x = None \<longrightarrow>
         (v, x) \<in> R\<^sup>* \<and> (\<forall>p \<in> parent_ids nd. (v, p) \<in> R\<^sup>*)) \<and>
      (\<forall>x nd nd'. g x = Some nd \<and> g' x = Some nd' \<longrightarrow>
         parent_ids nd' \<subseteq> parent_ids nd \<and>
         (\<forall>p \<in> parent_ids nd. (v, p) \<notin> R\<^sup>* \<longrightarrow> p \<in> parent_ids nd')) \<and>
      (\<forall>x. g x = None \<longrightarrow> g' x = None))"

text \<open>
  The table \<open>g\<close> that a cascade started on \<open>g0\<close> leaves when it throws: nodes differ
  from those of \<open>g0\<close> by lost parents only, and parents are in the table; unless a
  re-insertion in a handler failed, only the root and the nodes in \<open>T\<close> may be without
  parents. Child sets may hold handles of nodes that are erased or no longer name the owner.
\<close>

definition thrown :: "'id \<Rightarrow> 'id table \<Rightarrow> 'id set \<Rightarrow> 'id remove_fault set \<Rightarrow> 'id table \<Rightarrow> bool" where
  "thrown stem g0 T F g =
     ((\<forall>x nd. g x = Some nd \<longrightarrow>
         (\<exists>n0. g0 x = Some n0 \<and> virus nd = virus n0 \<and>
               children_virus_ptrs nd = children_virus_ptrs n0 \<and>
               parent_ids nd \<subseteq> parent_ids n0)) \<and>
      (\<forall>p x. live g p x \<longrightarrow> g p \<noteq> None) \<and>
      ((\<forall>a b. Reinsert_Fails a b \<notin> F) \<longrightarrow>
         (\<forall>x nd. g x = Some nd \<and> x \<notin> T \<and> x \<noteq> stem \<longrightarrow> parent_ids nd \<noteq> {})))"

text \<open>Some fault of the set is a failure to obtain the identifier of a child (line 261).\<close>

definition get_id_fault :: "'id remove_fault set \<Rightarrow> bool" where
  "get_id_fault F = (\<exists>a b. Get_Id_Fails a b \<in> F)"

text \<open>
  What the loop over the children \<open>cs\<close> of \<open>v\<close> gives inside a cascade, started on the
  table \<open>g\<close>: it returns with all the edges to these children handled, or it throws
  \<open>std::bad_alloc\<close> because obtaining the identifier of a child failed somewhere; it never
  runs into undefined behaviour.
\<close>

fun loop_post ::
  "'id \<Rightarrow> 'id remove_fault set \<Rightarrow> 'id table \<Rightarrow> 'id set \<Rightarrow> 'id \<Rightarrow> 'id handle list \<Rightarrow> 'id table
     \<Rightarrow> 'id table outcome \<Rightarrow> bool" where
  "loop_post stem F g0 T v cs g (Returns g') =
     (cascade_inv stem g0 T g' \<and> g' v \<noteq> None \<and> frame (child_rel g0) v g g' \<and>
      (\<forall>h \<in> set cs. \<not> live g' v (snd h)))"
| "loop_post stem F g0 T v cs g (Throws e g') =
     (e = BadAlloc \<and> get_id_fault F \<and> thrown stem g0 T F g' \<and> g' v \<noteq> None \<and>
      frame (child_rel g0) v g g')"
| "loop_post stem F g0 T v cs g Undefined = False"

text \<open>What a recursive call \<open>remove(c)\<close> gives inside a cascade, started on the table \<open>g\<close>.\<close>

fun cascade_post ::
  "'id \<Rightarrow> 'id remove_fault set \<Rightarrow> 'id table \<Rightarrow> 'id set \<Rightarrow> 'id \<Rightarrow> 'id table
     \<Rightarrow> 'id table outcome \<Rightarrow> bool" where
  "cascade_post stem F g0 T c g (Returns g') =
     (cascade_inv stem g0 T g' \<and> g' c = None \<and> frame (child_rel g0) c g g')"
| "cascade_post stem F g0 T c g (Throws e g') =
     (e = BadAlloc \<and> get_id_fault F \<and> thrown stem g0 T F g' \<and> g' c \<noteq> None \<and>
      frame (child_rel g0) c g g')"
| "cascade_post stem F g0 T c g Undefined = False"

text \<open>
  The contract of a recursive call \<open>remove(c)\<close> inside a cascade: \<open>c\<close> has just lost its
  last parent and none of its child edges has been handled.
\<close>

definition cascade_spec ::
  "'id \<Rightarrow> 'id remove_fault set \<Rightarrow> ('id::linorder) table \<Rightarrow> 'id \<Rightarrow> bool" where
  "cascade_spec stem F g0 c =
     (\<forall>T g nd.
        cascade_inv stem g0 T g \<and> c \<in> T \<and> g c = Some nd \<and> c \<noteq> stem \<and> parent_ids nd = {} \<and>
        (\<forall>x. (c, x) \<in> child_rel g0 \<longrightarrow> live g c x) \<and>
        (\<forall>t \<in> T. (c, t) \<notin> (child_rel g0)\<^sup>+) \<longrightarrow>
        (\<exists>n r. (\<forall>m \<ge> n. remove_fuel m F stem c g = Some r) \<and> cascade_post stem F g0 T c g r))"

text \<open>
  The root \<open>S\<close>, its child \<open>X\<close> and the child \<open>Y\<close> of \<open>X\<close>, as left by
  \<open>create("X", ["S"])\<close> and \<open>create("Y", ["X"])\<close>.
\<close>

definition example_SXY :: "string genealogy" where
  "example_SXY =
     \<lparr>stem_id = ''S'',
      graph = [''S'' \<mapsto> \<lparr>virus = (0, ''S''), parent_ids = {}, children_virus_ptrs = {(1, ''X'')}\<rparr>,
               ''X'' \<mapsto> \<lparr>virus = (1, ''X''), parent_ids = {''S''},
                          children_virus_ptrs = {(2, ''Y'')}\<rparr>,
               ''Y'' \<mapsto> \<lparr>virus = (2, ''Y''), parent_ids = {''X''}, children_virus_ptrs = {}\<rparr>]\<rparr>"

text \<open>
  A chain \<open>S\<close>, \<open>P\<close>, \<open>A\<close>, \<open>B\<close> closed into a cycle by \<open>connect("A", "B")\<close>, and what
  \<open>remove("P")\<close> leaves of it.
\<close>

definition example_cycle :: "string genealogy" where
  "example_cycle =
     \<lparr>stem_id = ''S'',
      graph = [''S'' \<mapsto> \<lparr>virus = (0, ''S''), parent_ids = {}, children_virus_ptrs = {(1, ''P'')}\<rparr>,
               ''P'' \<mapsto> \<lparr>virus = (1, ''P''), parent_ids = {''S''},
                          children_virus_ptrs = {(2, ''A'')}\<rparr>,
               ''A'' \<mapsto> \<lparr>virus = (2, ''A''), parent_ids = {''P'', ''B''},
                          children_virus_ptrs = {(3, ''B'')}\<rparr>,
               ''B'' \<mapsto> \<lparr>virus = (3, ''B''), parent_ids = {''A''},
                          children_virus_ptrs = {(2, ''A'')}\<rparr>]\<rparr>"

definition example_cycle_after :: "string genealogy" where
  "example_cycle_after =
     \<lparr>stem_id = ''S'',
      graph = [''S'' \<mapsto> \<lparr>virus = (0, ''S''), parent_ids = {}, children_virus_ptrs = {}\<rparr>,
               ''A'' \<mapsto> \<lparr>virus = (2, ''A''), parent_ids = {''B''},
                          children_virus_ptrs = {(3, ''B'')}\<rparr>,
               ''B'' \<mapsto> \<lparr>virus = (3, ''B''), parent_ids = {''A''},
                          children_virus_ptrs = {(2, ''A'')}\<rparr>]\<rparr>"

text \<open>
  The root \<open>S\<close>, its child \<open>X\<close>, the children \<open>C\<close> and \<open>Y\<close> of \<open>X\<close>, and the
  child \<open>Z\<close> of \<open>Y\<close>, as left by \<open>create("X", ["S"])\<close>, \<open>create("C", ["X"])\<close>,
  \<open>create("Y", ["X"])\<close> and \<open>create("Z", ["Y"])\<close>. In the child set of \<open>X\<close> the handle
  of \<open>C\<close> comes before the handle of \<open>Y\<close>.
\<close>

definition example_family :: "string genealogy" where
  "example_family =
     \<lparr>stem_id = ''S'',
      graph = [''S'' \<mapsto> \<lparr>virus = (0, ''S''), parent_ids = {}, children_virus_ptrs = {(1, ''X'')}\<rparr>,
               ''X'' \<mapsto> \<lparr>virus = (1, ''X''), parent_ids = {''S''},
                          children_virus_ptrs = {(2, ''C''), (3, ''Y'')}\<rparr>,
               ''C'' \<mapsto> \<lparr>virus = (2, ''C''), parent_ids = {''X''}, children_virus_ptrs = {}\<rparr>,
               ''Y'' \<mapsto> \<lparr>virus = (3, ''Y''), parent_ids = {''X''},
                          children_virus_ptrs = {(4, ''Z'')}\<rparr>,
               ''Z'' \<mapsto> \<lparr>virus = (4, ''Z''), parent_ids = {''Y''}, children_virus_ptrs = {}\<rparr>]\<rparr>"


text \<open>
  What \<open>remove("X")\<close> leaves of it when obtaining the identifier of \<open>Z\<close> fails in the
  recursive call for \<open>Y\<close> and the re-insertion of \<open>X\<close> into the parent set of \<open>Y\<close>
  fails in the handler: \<open>C\<close> is gone and \<open>Y\<close> has no parent.
\<close>

definition example_family_orphan :: "string genealogy" where
  "example_family_orphan =
     \<lparr>stem_id = ''S'',
      graph = [''S'' \<mapsto> \<lparr>virus = (0, ''S''), parent_ids = {}, children_virus_ptrs = {(1, ''X'')}\<rparr>,
               ''X'' \<mapsto> \<lparr>virus = (1, ''X''), parent_ids = {''S''},
                          children_virus_ptrs = {(2, ''C''), (3, ''Y'')}\<rparr>,
               ''Y'' \<mapsto> \<lparr>virus = (3, ''Y''), parent_ids = {},
                          children_virus_ptrs = {(4, ''Z'')}\<rparr>,
               ''Z'' \<mapsto> \<lparr>virus = (4, ''Z''), parent_ids = {''Y''}, children_virus_ptrs = {}\<rparr>]\<rparr>"

section \<open>Calls within the contract\<close>

text \<open>
  The parents whose iterators are in \<open>edges_to_parents\<close> when the handler of \<open>create\<close>
  runs (lines 202 to 204): those before the position at which a step of the loop throws, or
  all of them when the insertion into the table throws.
\<close>

fun rolled_back :: "create_fault option \<Rightarrow> 'id list \<Rightarrow> 'id list" where
  "rolled_back None ps = []"
| "rolled_back (Some (Child_Insert_Fails k)) ps = (if k < length ps then take k ps else [])"
| "rolled_back (Some (Push_Back_Fails k)) ps = (if k < length ps then take k ps else [])"
| "rolled_back (Some Table_Insert_Fails) ps = ps"



section \<open>Child sets during a cascade\<close>

text \<open>Every node of \<open>g'\<close> is a node of \<open>g\<close> with the same child set.\<close>

definition same_children :: "'id table \<Rightarrow> 'id table \<Rightarrow> bool" where
  "same_children g g' =
     (\<forall>x nd'. g' x = Some nd' \<longrightarrow>
        (\<exists>nd. g x = Some nd \<and> children_virus_ptrs nd' = children_virus_ptrs nd))"


section \<open>Facts about the examples\<close>

lemma example_AB_calls:
  "run_calls [Create 1 None ''A'' [''S''], Create 2 None ''B'' [''S'']] (VirusGenealogy 0 ''S'')
     = Some example_AB"
  by (simp add: example_AB_def VirusGenealogy_def create_def create_table_def Node_def modify_def
        fun_upd_twist insert_commute)

section \<open>Properties of create\<close>

lemma modify_Some: "g k = Some nd \<Longrightarrow> modify k f g = g(k \<mapsto> f nd)"
  by (simp add: modify_def)

lemma modify_None: "g k = None \<Longrightarrow> modify k f g = g"
  by (simp add: modify_def)

lemma dom_modify: "dom (modify k f g) = dom g"
  by (auto simp: modify_def split: option.splits)

lemma modify_other: "q \<noteq> k \<Longrightarrow> modify k f g q = g q"
  by (simp add: modify_def split: option.splits)

lemma find_parents_iff: "find_parents g ps \<longleftrightarrow> set ps \<subseteq> dom g"
  by (induction ps) (auto split: option.splits)

lemma add_child_handle_other: "q \<noteq> p \<Longrightarrow> add_child_handle h p g q = g q"
  by (simp add: add_child_handle_def modify_def split: option.splits)

lemma add_child_handle_dom: "dom (add_child_handle h p g) = dom g"
  by (simp add: add_child_handle_def dom_modify)

lemma fold_add_other: "q \<notin> set ps \<Longrightarrow> fold (add_child_handle h) ps g q = g q"
  by (induction ps arbitrary: g) (auto simp: add_child_handle_other)

lemma fold_add_dom: "dom (fold (add_child_handle h) ps g) = dom g"
  by (induction ps arbitrary: g) (auto simp: add_child_handle_dom)

lemma add_child_handle_upd:
  "q \<noteq> p \<Longrightarrow> (add_child_handle h p g)(q \<mapsto> v) = add_child_handle h p (g(q \<mapsto> v))"
  by (auto simp: add_child_handle_def modify_def fun_eq_iff split: option.splits)

lemma fold_add_upd:
  "q \<notin> set ps \<Longrightarrow>
   (fold (add_child_handle h) ps g)(q \<mapsto> v) = fold (add_child_handle h) ps (g(q \<mapsto> v))"
  by (induction ps arbitrary: g) (auto simp: add_child_handle_upd)

text \<open>The loop of lines 196 to 199 when the insertion at position \<open>j\<close> throws.\<close>

lemma insert_edges_fails:
  "k \<le> j \<Longrightarrow> j < k + length ps \<Longrightarrow>
   insert_edges (Some (Child_Insert_Fails j)) h ps k g
     = (fold (add_child_handle h) (take (j - k) ps) g, j, True)"
proof (induction ps arbitrary: k g)
  case Nil
  then show ?case by simp
next
  case (Cons p ps)
  show ?case
  proof (cases "j = k")
    case True
    then show ?thesis by simp
  next
    case False
    with Cons.prems have "Suc k \<le> j" "j < Suc k + length ps" by auto
    from Cons.IH[OF this] False Cons.prems show ?thesis
      by (simp add: add_child_handle_def take_Cons' Suc_diff_le)
  qed
qed

text \<open>
  The same loop when \<open>push_back\<close> throws at position \<open>j\<close>: the insertion at that
  position has been done, and \<open>j\<close> iterators are recorded.
\<close>

lemma insert_edges_push_fails:
  "k \<le> j \<Longrightarrow> j < k + length ps \<Longrightarrow>
   insert_edges (Some (Push_Back_Fails j)) h ps k g
     = (fold (add_child_handle h) (take (Suc (j - k)) ps) g, j, True)"
proof (induction ps arbitrary: k g)
  case Nil
  then show ?case by simp
next
  case (Cons p ps)
  show ?case
  proof (cases "j = k")
    case True
    then show ?thesis by (simp add: add_child_handle_def)
  next
    case False
    with Cons.prems have "Suc k \<le> j" "j < Suc k + length ps" by auto
    moreover from this have "Suc (j - Suc k) = j - k" by simp
    ultimately show ?thesis using Cons.IH[of "Suc k"] False
      by (simp add: add_child_handle_def)
  qed
qed

text \<open>The same loop when no step throws.\<close>

lemma insert_edges_succeeds:
  "(\<forall>j. fault = Some (Child_Insert_Fails j) \<or> fault = Some (Push_Back_Fails j)
        \<longrightarrow> j < k \<or> k + length ps \<le> j) \<Longrightarrow>
   insert_edges fault h ps k g = (fold (add_child_handle h) ps g, k + length ps, False)"
proof (induction ps arbitrary: k g)
  case Nil
  then show ?case by simp
next
  case (Cons p ps)
  have "\<forall>j. fault = Some (Child_Insert_Fails j) \<or> fault = Some (Push_Back_Fails j)
          \<longrightarrow> j < Suc k \<or> Suc k + length ps \<le> j"
    using Cons.prems by auto
  moreover have "fault \<noteq> Some (Child_Insert_Fails k)" "fault \<noteq> Some (Push_Back_Fails k)"
    using Cons.prems by auto
  ultimately show ?case using Cons.IH[of "Suc k"]
    by (simp add: add_child_handle_def Let_def)
qed

lemma add_child_handle_commute:
  "add_child_handle h p (add_child_handle h q g) = add_child_handle h q (add_child_handle h p g)"
  by (auto simp: add_child_handle_def modify_def fun_eq_iff insert_commute split: option.splits)

lemma fold_add_commute:
  "fold (add_child_handle h) qs (add_child_handle h p g)
     = add_child_handle h p (fold (add_child_handle h) qs g)"
proof (induction qs arbitrary: g)
  case Nil
  show ?case by simp
next
  case (Cons q qs)
  have "fold (add_child_handle h) (q # qs) (add_child_handle h p g)
          = fold (add_child_handle h) qs (add_child_handle h p (add_child_handle h q g))"
    by (simp add: add_child_handle_commute[of h q p g])
  also have "\<dots> = add_child_handle h p (fold (add_child_handle h) qs (add_child_handle h q g))"
    by (rule Cons.IH)
  finally show ?case by simp
qed

text \<open>
  The handler of lines 202 to 204 takes back what the loop did, provided no parent occurs
  twice and the handle was in none of the child sets before.
\<close>

lemma undo_edges_fold:
  "distinct qs \<Longrightarrow> set qs \<subseteq> dom g \<Longrightarrow>
   (\<forall>q pn. q \<in> set qs \<and> g q = Some pn \<longrightarrow> h \<notin> children_virus_ptrs pn) \<Longrightarrow>
   undo_edges h qs (fold (add_child_handle h) qs g) = Some g"
proof (induction qs arbitrary: g)
  case Nil
  then show ?case by simp
next
  case (Cons q qs)
  from Cons.prems obtain pn where pn: "g q = Some pn" and hn: "h \<notin> children_virus_ptrs pn"
    by auto
  let ?pn' = "pn\<lparr>children_virus_ptrs := insert h (children_virus_ptrs pn)\<rparr>"
  have a: "add_child_handle h q g = g(q \<mapsto> ?pn')"
    using pn by (simp add: add_child_handle_def modify_def)
  have q: "q \<notin> set qs" using Cons.prems by simp
  have look: "fold (add_child_handle h) qs (add_child_handle h q g) q = Some ?pn'"
    using q by (simp add: fold_add_other a)
  have restore: "(fold (add_child_handle h) qs (add_child_handle h q g))
                (q \<mapsto> ?pn'\<lparr>children_virus_ptrs := children_virus_ptrs ?pn' - {h}\<rparr>)
              = fold (add_child_handle h) qs g"
  proof -
    have "?pn'\<lparr>children_virus_ptrs := children_virus_ptrs ?pn' - {h}\<rparr> = pn"
      using hn by simp
    moreover have "g(q \<mapsto> ?pn', q \<mapsto> pn) = g" using pn by (auto simp: fun_eq_iff)
    ultimately show ?thesis using q by (simp add: fold_add_upd a)
  qed
  have "undo_edges h qs (fold (add_child_handle h) qs g) = Some g"
    using Cons.prems by (intro Cons.IH) auto
  then show ?case using look restore by simp
qed

lemma create_table_rollback:
  assumes ne: "ps \<noteq> []" and new: "g vid = None" and dist: "distinct ps"
    and par: "set ps \<subseteq> dom g"
    and fresh: "\<forall>q pn. g q = Some pn \<longrightarrow> (a, vid) \<notin> children_virus_ptrs pn"
    and fault: "fault = Some Table_Insert_Fails \<or> (\<exists>k<length ps. fault = Some (Child_Insert_Fails k))"
  shows "create_table a fault vid ps g = Throws BadAlloc g"
proof -
  have fp: "find_parents g ps" using par by (simp add: find_parents_iff)
  have undo: "undo_edges (a, vid) (take n ps) (fold (add_child_handle (a, vid)) (take n ps) g) = Some g"
    for n
  proof (rule undo_edges_fold)
    show "distinct (take n ps)" using dist by simp
    show "set (take n ps) \<subseteq> dom g" using par set_take_subset[of n ps] by blast
    show "\<forall>q pn. q \<in> set (take n ps) \<and> g q = Some pn \<longrightarrow> (a, vid) \<notin> children_virus_ptrs pn"
      using fresh by blast
  qed
  from fault show ?thesis
  proof
    assume f: "fault = Some Table_Insert_Fails"
    then have "insert_edges fault (a, vid) ps 0 g
                 = (fold (add_child_handle (a, vid)) ps g, length ps, False)"
      using insert_edges_succeeds[of fault 0 ps "(a, vid)" g] by simp
    then show ?thesis using ne new fp f undo[of "length ps"]
      by (simp add: create_table_def Node_def)
  next
    assume "\<exists>k<length ps. fault = Some (Child_Insert_Fails k)"
    then obtain k where k: "k < length ps" "fault = Some (Child_Insert_Fails k)" by blast
    then have "insert_edges fault (a, vid) ps 0 g
                 = (fold (add_child_handle (a, vid)) (take k ps) g, k, True)"
      using insert_edges_fails[of 0 k ps "(a, vid)" g] by simp
    then show ?thesis using ne new fp undo[of k]
      by (simp add: create_table_def Node_def)
  qed
qed

text \<open>Inserting a handle twice is inserting it once.\<close>

lemma add_child_handle_idem:
  "add_child_handle h p (add_child_handle h p g) = add_child_handle h p g"
  by (auto simp: add_child_handle_def modify_def fun_eq_iff split: option.splits)

lemma fold_add_absorb:
  "p \<in> set qs \<Longrightarrow>
   add_child_handle h p (fold (add_child_handle h) qs g) = fold (add_child_handle h) qs g"
proof (induction qs arbitrary: g)
  case Nil
  then show ?case by simp
next
  case (Cons q qs)
  show ?case
  proof (cases "p = q")
    case True
    have "add_child_handle h p (fold (add_child_handle h) (q # qs) g)
            = fold (add_child_handle h) qs (add_child_handle h p (add_child_handle h p g))"
      using True by (simp add: fold_add_commute)
    then show ?thesis using True by (simp add: add_child_handle_idem)
  next
    case False
    with Cons.prems have "p \<in> set qs" by simp
    from Cons.IH[OF this] show ?thesis by simp
  qed
qed

text \<open>
  When \<open>push_back\<close> throws at position \<open>k\<close>, the handler erases the \<open>k\<close> recorded
  iterators; the handle inserted last stays in the child set of the parent at position
  \<open>k\<close>, unless that parent is also one of the earlier ones.
\<close>

lemma create_table_push_back:
  assumes ne: "ps \<noteq> []" and new: "g vid = None" and dist: "distinct (take k ps)"
    and par: "set ps \<subseteq> dom g"
    and fresh: "\<forall>q pn. g q = Some pn \<longrightarrow> (a, vid) \<notin> children_virus_ptrs pn"
    and k: "k < length ps"
  shows "create_table a (Some (Push_Back_Fails k)) vid ps g
           = Throws BadAlloc (if ps ! k \<in> set (take k ps) then g
                              else add_child_handle (a, vid) (ps ! k) g)"
proof -
  let ?h = "(a, vid)"
  let ?g = "add_child_handle ?h (ps ! k) g"
  have fp: "find_parents g ps" using par by (simp add: find_parents_iff)
  have ie: "insert_edges (Some (Push_Back_Fails k)) ?h ps 0 g
              = (fold (add_child_handle ?h) (take (Suc k) ps) g, k, True)"
    using insert_edges_push_fails[of 0 k ps ?h g] k by simp
  have app: "fold (add_child_handle ?h) (take (Suc k) ps) g
          = add_child_handle ?h (ps ! k) (fold (add_child_handle ?h) (take k ps) g)"
    using k by (simp add: take_Suc_conv_app_nth)
  have sub: "set (take k ps) \<subseteq> dom g" using par set_take_subset[of k ps] by blast
  show ?thesis
  proof (cases "ps ! k \<in> set (take k ps)")
    case True
    from app fold_add_absorb[OF True]
    have "fold (add_child_handle ?h) (take (Suc k) ps) g
            = fold (add_child_handle ?h) (take k ps) g" by simp
    moreover have "undo_edges ?h (take k ps) (fold (add_child_handle ?h) (take k ps) g) = Some g"
      using dist sub fresh by (intro undo_edges_fold) blast+
    ultimately show ?thesis using ie ne new fp True
      by (simp add: create_table_def Node_def)
  next
    case notin: False
    from app have fold: "fold (add_child_handle ?h) (take (Suc k) ps) g
                     = fold (add_child_handle ?h) (take k ps) ?g"
      by (simp add: fold_add_commute)
    have "undo_edges ?h (take k ps) (fold (add_child_handle ?h) (take k ps) ?g) = Some ?g"
    proof (rule undo_edges_fold)
      show "distinct (take k ps)" by (rule dist)
      show "set (take k ps) \<subseteq> dom ?g" using sub by (auto simp: add_child_handle_dom)
      show "\<forall>q pn. q \<in> set (take k ps) \<and> ?g q = Some pn \<longrightarrow> ?h \<notin> children_virus_ptrs pn"
      proof (intro allI impI, elim conjE)
        fix q pn assume q: "q \<in> set (take k ps)" "?g q = Some pn"
        with notin have "q \<noteq> ps ! k" by auto
        with q(2) have "g q = Some pn" by (simp add: add_child_handle_other)
        with fresh show "?h \<notin> children_virus_ptrs pn" by blast
      qed
    qed
    with ie fold ne new fp notin show ?thesis
      by (simp add: create_table_def Node_def)
  qed
qed

lemma create_table_parent_absent:
  "ps \<noteq> [] \<Longrightarrow> g vid = None \<Longrightarrow> \<not> set ps \<subseteq> dom g \<Longrightarrow>
   create_table a fault vid ps g = Throws VirusNotFound g"
  by (simp add: create_table_def find_parents_iff)

lemma create_table_success:
  "ps \<noteq> [] \<Longrightarrow> g vid = None \<Longrightarrow> set ps \<subseteq> dom g \<Longrightarrow>
   create_table a None vid ps g =
     Returns ((fold (add_child_handle (a, vid)) ps g)
                (vid \<mapsto> \<lparr>virus = (a, vid), parent_ids = set ps, children_virus_ptrs = {}\<rparr>))"
  using insert_edges_succeeds[of None 0 ps "(a, vid)" g]
  by (simp add: create_table_def find_parents_iff Node_def)

text \<open>
  When a parent is named twice and a later insertion throws, the handler erases the same
  iterator of the same child set twice; the second \<open>erase\<close> is undefined behaviour.
\<close>

lemma create_duplicate_parent_undefined:
  "create 3 (Some Table_Insert_Fails) ''C'' [''A'', ''A''] example_AB = Undefined"
  by (simp add: create_def create_table_def example_AB_def Node_def modify_def)

text \<open>
  Claim C8. \<open>create\<close> with an empty parent list returns at once: no node is created, no
  error is raised whether or not the identifier is in the table, and the object is
  unchanged.
\<close>

theorem create_empty_parents_noop:
  "create a fault vid [] vg = Returns vg"
  by (simp add: create_def create_table_def)

text \<open>
  Claim C7, as stated, fails for the empty parent list: the root \<open>S\<close> is in the table, and
  \<open>create("S", [])\<close> returns without an error.
\<close>

theorem create_existing_empty_counterexample:
  "exists ''S'' (VirusGenealogy 0 ''S'') \<and>
   create 1 None ''S'' [] (VirusGenealogy 0 ''S'') = Returns (VirusGenealogy 0 ''S'')"
  by (simp add: exists_def VirusGenealogy_def create_def create_table_def)

text \<open>
  Claim C7, amended. For an identifier that is already in the table and a non-empty parent
  list, \<open>create\<close> throws \<open>VirusAlreadyCreated\<close> and the object is unchanged, whatever the
  parents are and whatever failure is injected.
\<close>

theorem create_existing_id:
  assumes "exists vid vg" and "parent_ids_arg \<noteq> []"
  shows "create a fault vid parent_ids_arg vg = Throws VirusAlreadyCreated vg"
  using assms by (simp add: create_def create_table_def exists_def)

theorem create_existing_id_witness:
  "exists ''A'' example_AB \<and> [''Z'', ''B''] \<noteq> [] \<and>
   create 3 None ''A'' [''Z'', ''B''] example_AB = Throws VirusAlreadyCreated example_AB"
proof -
  have e: "exists ''A'' example_AB" by (simp add: exists_def example_AB_def)
  have n: "[''Z'', ''B''] \<noteq> []" by simp
  show ?thesis using e n create_existing_id [OF e n, of 3 None] by simp
qed

text \<open>
  The check for an identifier that is already in the table comes before the lookup of the
  parents: \<open>create("A", ["Z"])\<close> with \<open>A\<close> present and \<open>Z\<close> absent throws
  \<open>VirusAlreadyCreated\<close>, not \<open>VirusNotFound\<close>.
\<close>

lemma create_existing_id_absent_parent:
  "\<not> exists ''Z'' example_AB \<and>
   create 3 None ''A'' [''Z''] example_AB = Throws VirusAlreadyCreated example_AB"
  by (simp add: exists_def example_AB_def create_def create_table_def)

text \<open>
  For an identifier that is not in the table and a non-empty parent list: if some parent is
  absent, \<open>create\<close> throws \<open>VirusNotFound\<close> and the object is unchanged; if all parents
  are present and pairwise different, the new handle is fresh, and the insertion into a child
  set at some position (line 197) or the insertion into the table (line 200) throws, then
  \<open>create\<close> throws with the object exactly as before the call.
\<close>

lemma create_absent_parent_or_insert_fails:
  assumes "parent_ids_arg \<noteq> []" and "\<not> exists vid vg"
  shows "((\<exists>p \<in> set parent_ids_arg. \<not> exists p vg) \<longrightarrow>
            create a fault vid parent_ids_arg vg = Throws VirusNotFound vg) \<and>
         ((\<forall>p \<in> set parent_ids_arg. exists p vg) \<and> distinct parent_ids_arg \<and>
          fresh_handle a vid (graph vg) \<and>
          (fault = Some Table_Insert_Fails \<or>
           (\<exists>k < length parent_ids_arg. fault = Some (Child_Insert_Fails k))) \<longrightarrow>
            create a fault vid parent_ids_arg vg = Throws BadAlloc vg)"
proof (intro conjI impI)
  assume "\<exists>p \<in> set parent_ids_arg. \<not> exists p vg"
  then have "\<not> set parent_ids_arg \<subseteq> dom (graph vg)" by (auto simp: exists_def)
  with assms show "create a fault vid parent_ids_arg vg = Throws VirusNotFound vg"
    by (simp add: create_def exists_def create_table_parent_absent)
next
  assume h: "(\<forall>p \<in> set parent_ids_arg. exists p vg) \<and> distinct parent_ids_arg \<and>
          fresh_handle a vid (graph vg) \<and>
          (fault = Some Table_Insert_Fails \<or>
           (\<exists>k < length parent_ids_arg. fault = Some (Child_Insert_Fails k)))"
  then have "set parent_ids_arg \<subseteq> dom (graph vg)" by (auto simp: exists_def)
  moreover have "\<forall>q pn. graph vg q = Some pn \<longrightarrow> (a, vid) \<notin> children_virus_ptrs pn"
    using h by (simp add: fresh_handle_def)
  ultimately have "create_table a fault vid parent_ids_arg (graph vg) = Throws BadAlloc (graph vg)"
    using assms h by (intro create_table_rollback) (auto simp: exists_def)
  then show "create a fault vid parent_ids_arg vg = Throws BadAlloc vg"
    by (simp add: create_def)
qed

text \<open>
  In the same situation, when \<open>push_back\<close> (line 198) throws for the parent at position
  \<open>k\<close>, \<open>create\<close> throws and the object is as before except that this parent keeps the
  handle of the node that was not created.
\<close>

lemma create_push_back_fails:
  assumes "parent_ids_arg \<noteq> []" and "\<not> exists vid vg"
    and "\<forall>p \<in> set parent_ids_arg. exists p vg" and "distinct parent_ids_arg"
    and "fresh_handle a vid (graph vg)" and "k < length parent_ids_arg"
  shows "create a (Some (Push_Back_Fails k)) vid parent_ids_arg vg
           = Throws BadAlloc (vg\<lparr>graph := add_child_handle (a, vid) (parent_ids_arg ! k) (graph vg)\<rparr>)"
proof -
  have par: "set parent_ids_arg \<subseteq> dom (graph vg)" using assms(3) by (auto simp: exists_def)
  have fresh: "\<forall>q pn. graph vg q = Some pn \<longrightarrow> (a, vid) \<notin> children_virus_ptrs pn"
    using assms(5) by (simp add: fresh_handle_def)
  have new: "graph vg vid = None" using assms(2) by (simp add: exists_def)
  have d: "distinct (take k parent_ids_arg)" using assms(4) by simp
  have notin: "parent_ids_arg ! k \<notin> set (take k parent_ids_arg)"
    using assms(4,6) by (metis distinct_take id_take_nth_drop not_distinct_conv_prefix)
  from create_table_push_back[OF assms(1) new d par fresh assms(6)] notin
  show ?thesis by (simp add: create_def)
qed

text \<open>
  Claim C4 fails on the code. On \<open>example_AB\<close>, \<open>create("C", ["A", "B"])\<close> inserts the
  new handle into the child sets of \<open>A\<close> and of \<open>B\<close>; when \<open>push_back\<close> then throws for
  \<open>B\<close> (line 198), the handler erases the one recorded iterator, that of \<open>A\<close>. The call
  throws, \<open>C\<close> is not in the table, and the child set of \<open>B\<close> still holds the handle of
  \<open>C\<close>: the object is not as it was before the call.
\<close>

theorem create_push_back_leaves_handle:
  "\<not> exists ''C'' example_AB \<and> exists ''A'' example_AB \<and> exists ''B'' example_AB \<and>
   create 3 (Some (Push_Back_Fails 1)) ''C'' [''A'', ''B''] example_AB
     = Throws BadAlloc example_AB_stale \<and>
   example_AB_stale \<noteq> example_AB \<and>
   \<not> exists ''C'' example_AB_stale \<and>
   graph example_AB_stale ''B''
     = Some \<lparr>virus = (2, ''B''), parent_ids = {''S''}, children_virus_ptrs = {(3, ''C'')}\<rparr>"
proof -
  have r: "create 3 (Some (Push_Back_Fails 1)) ''C'' [''A'', ''B''] example_AB
             = Throws BadAlloc example_AB_stale"
    by (simp add: create_def create_table_def example_AB_def example_AB_stale_def Node_def
          modify_def fun_upd_twist)
  have "graph example_AB_stale ''B'' \<noteq> graph example_AB ''B''"
    by (simp add: example_AB_def example_AB_stale_def)
  then have "example_AB_stale \<noteq> example_AB" by auto
  with r show ?thesis
    by (simp add: exists_def example_AB_def example_AB_stale_def)
qed

section \<open>Properties of connect\<close>

lemma connect_table_absent:
  "g c = None \<or> g p = None \<Longrightarrow> connect_table fault c p g = Throws VirusNotFound g"
  by (auto simp: connect_table_def split: option.splits)

lemma connect_table_present:
  "g c = Some cn \<Longrightarrow> g p \<noteq> None \<Longrightarrow> p \<in> parent_ids cn \<Longrightarrow>
   connect_table fault c p g = Returns g"
  by (auto simp: connect_table_def split: option.splits)

lemma connect_table_rollback:
  "g c = Some cn \<Longrightarrow> g p \<noteq> None \<Longrightarrow> p \<notin> parent_ids cn \<Longrightarrow>
   connect_table (Some Child_Ptr_Insert_Fails) c p g = Throws BadAlloc g"
  by (auto simp: connect_table_def modify_def fun_eq_iff split: option.splits)

lemma connect_table_new:
  assumes "g c = Some cn" "g p \<noteq> None" "p \<notin> parent_ids cn"
  shows "\<exists>g' cn' pn'. connect_table None c p g = Returns g' \<and> g' c = Some cn' \<and> g' p = Some pn'
           \<and> parent_ids cn' = insert p (parent_ids cn) \<and> virus cn \<in> children_virus_ptrs pn'"
  using assms by (auto simp: connect_table_def modify_def split: option.splits)

lemma connect_table_twice:
  assumes "g c \<noteq> None" "g p \<noteq> None"
  shows "\<exists>g'. connect_table None c p g = Returns g' \<and> connect_table None c p g' = Returns g'"
proof -
  obtain cn where cn: "g c = Some cn" using assms by auto
  show ?thesis
  proof (cases "p \<in> parent_ids cn")
    case True
    then show ?thesis using connect_table_present[OF cn assms(2)] by simp
  next
    case False
    from connect_table_new[OF cn assms(2) False] obtain g' cn' pn' where
      *: "connect_table None c p g = Returns g'" "g' c = Some cn'" "g' p = Some pn'"
         "parent_ids cn' = insert p (parent_ids cn)"
      by blast
    then show ?thesis using connect_table_present[of g' c cn' p None] by simp
  qed
qed

text \<open>
  Claim C6. If either identifier is absent, \<open>connect\<close> throws \<open>VirusNotFound\<close> and the
  object is unchanged. If both are present: a call without failure returns an object that a
  second call with the same arguments returns unchanged; when the parent is already recorded
  the call returns the object unchanged, with no error; when it is not, a call without
  failure records the edge in both directions (in sets, so no edge twice), and when the
  insertion into the child set of the parent throws, the parent identifier just inserted is
  erased again and the object is exactly as before.
\<close>

theorem connect_idempotent:
  "(\<not> exists child_id vg \<or> \<not> exists parent_id vg \<longrightarrow>
      connect fault child_id parent_id vg = Throws VirusNotFound vg) \<and>
   (\<forall>cn. graph vg child_id = Some cn \<and> exists parent_id vg \<longrightarrow>
      (\<exists>vg'. connect None child_id parent_id vg = Returns vg' \<and>
         connect None child_id parent_id vg' = Returns vg') \<and>
      (parent_id \<in> parent_ids cn \<longrightarrow> connect fault child_id parent_id vg = Returns vg) \<and>
      (parent_id \<notin> parent_ids cn \<longrightarrow>
         connect (Some Child_Ptr_Insert_Fails) child_id parent_id vg = Throws BadAlloc vg \<and>
         (\<exists>vg' cn' pn'. connect None child_id parent_id vg = Returns vg' \<and>
            graph vg' child_id = Some cn' \<and> graph vg' parent_id = Some pn' \<and>
            parent_ids cn' = insert parent_id (parent_ids cn) \<and>
            virus cn \<in> children_virus_ptrs pn')))"
proof (intro conjI allI impI)
  assume "\<not> exists child_id vg \<or> \<not> exists parent_id vg"
  then show "connect fault child_id parent_id vg = Throws VirusNotFound vg"
    by (auto simp: connect_def exists_def connect_table_absent)
next
  fix cn
  assume "graph vg child_id = Some cn \<and> exists parent_id vg"
  then have "graph vg child_id \<noteq> None" "graph vg parent_id \<noteq> None"
    by (simp_all add: exists_def)
  from connect_table_twice[OF this] obtain g' where
    "connect_table None child_id parent_id (graph vg) = Returns g'"
    "connect_table None child_id parent_id g' = Returns g'" by blast
  then have "connect None child_id parent_id vg = Returns (vg\<lparr>graph := g'\<rparr>) \<and>
         connect None child_id parent_id (vg\<lparr>graph := g'\<rparr>) = Returns (vg\<lparr>graph := g'\<rparr>)"
    by (simp add: connect_def)
  then show "\<exists>vg'. connect None child_id parent_id vg = Returns vg' \<and>
         connect None child_id parent_id vg' = Returns vg'" by blast
next
  fix cn
  assume "graph vg child_id = Some cn \<and> exists parent_id vg" "parent_id \<in> parent_ids cn"
  then show "connect fault child_id parent_id vg = Returns vg"
    by (simp add: connect_def exists_def connect_table_present)
next
  fix cn
  assume "graph vg child_id = Some cn \<and> exists parent_id vg" "parent_id \<notin> parent_ids cn"
  then show "connect (Some Child_Ptr_Insert_Fails) child_id parent_id vg = Throws BadAlloc vg"
    by (simp add: connect_def exists_def connect_table_rollback)
next
  fix cn
  assume a: "graph vg child_id = Some cn \<and> exists parent_id vg" "parent_id \<notin> parent_ids cn"
  then have c: "graph vg child_id = Some cn" and p: "graph vg parent_id \<noteq> None"
    by (simp_all add: exists_def)
  from connect_table_new[OF c p a(2)] obtain g' cn' pn' where
    "connect_table None child_id parent_id (graph vg) = Returns g'" "g' child_id = Some cn'"
    "g' parent_id = Some pn'" "parent_ids cn' = insert parent_id (parent_ids cn)"
    "virus cn \<in> children_virus_ptrs pn'" by blast
  then have "connect None child_id parent_id vg = Returns (vg\<lparr>graph := g'\<rparr>) \<and>
            graph (vg\<lparr>graph := g'\<rparr>) child_id = Some cn' \<and>
            graph (vg\<lparr>graph := g'\<rparr>) parent_id = Some pn' \<and>
            parent_ids cn' = insert parent_id (parent_ids cn) \<and>
            virus cn \<in> children_virus_ptrs pn'"
    by (simp add: connect_def)
  then show "\<exists>vg' cn' pn'. connect None child_id parent_id vg = Returns vg' \<and>
            graph vg' child_id = Some cn' \<and> graph vg' parent_id = Some pn' \<and>
            parent_ids cn' = insert parent_id (parent_ids cn) \<and>
            virus cn \<in> children_virus_ptrs pn'" by blast
qed

theorem connect_idempotent_witness:
  "connect None ''A'' ''Z'' example_AB = Throws VirusNotFound example_AB \<and>
   connect None ''A'' ''S'' example_AB = Returns example_AB \<and>
   connect (Some Child_Ptr_Insert_Fails) ''A'' ''B'' example_AB = Throws BadAlloc example_AB \<and>
   (\<exists>vg'. connect None ''A'' ''B'' example_AB = Returns vg' \<and>
      connect None ''A'' ''B'' vg' = Returns vg')"
proof -
  let ?A = "\<lparr>virus = (1, ''A''), parent_ids = {''S''}, children_virus_ptrs = {}\<rparr>"
  have z: "\<not> exists ''Z'' example_AB" by (simp add: exists_def example_AB_def)
  have a: "graph example_AB ''A'' = Some ?A" by (simp add: example_AB_def)
  have s: "exists ''S'' example_AB" and b: "exists ''B'' example_AB"
    by (simp_all add: exists_def example_AB_def)
  have ps: "''S'' \<in> parent_ids ?A" and pb: "''B'' \<notin> parent_ids ?A" by simp_all
  from connect_idempotent [of "''A''" example_AB "''Z''" None] z
  have 1: "connect None ''A'' ''Z'' example_AB = Throws VirusNotFound example_AB" by simp
  from connect_idempotent [of "''A''" example_AB "''S''" None] a s ps
  have 2: "connect None ''A'' ''S'' example_AB = Returns example_AB" by blast
  from connect_idempotent [of "''A''" example_AB "''B''" None] a b pb
  have 3: "connect (Some Child_Ptr_Insert_Fails) ''A'' ''B'' example_AB = Throws BadAlloc example_AB"
    and 4: "\<exists>vg'. connect None ''A'' ''B'' example_AB = Returns vg' \<and>
      connect None ''A'' ''B'' vg' = Returns vg'" by blast+
  from 1 2 3 4 show ?thesis by blast
qed


section \<open>What remove can change: the frame\<close>

lemma set_sorted_list_of_set_subset: "set (sorted_list_of_set A) \<subseteq> A"
  by (cases "finite A") auto

lemma shrinks_refl: "shrinks stem g g"
  by (auto simp: shrinks_def)

lemma child_rel_shrinks: "shrinks stem g g' \<Longrightarrow> child_rel g' \<subseteq> child_rel g"
  unfolding shrinks_def child_rel_def by fastforce

lemma shrinks_trans:
  assumes a: "shrinks stem g g1" and b: "shrinks stem g1 g2"
  shows "shrinks stem g g2"
proof -
  have sub: "Range (child_rel g1) \<subseteq> Range (child_rel g)"
    using child_rel_shrinks[OF a] by blast
  show ?thesis
    unfolding shrinks_def
  proof (intro conjI allI impI)
    assume "g stem \<noteq> None"
    then show "g2 stem \<noteq> None" using a b by (simp add: shrinks_def)
  next
    fix x nd2
    assume "g2 x = Some nd2"
    then obtain nd1 where 1: "g1 x = Some nd1" "virus nd2 = virus nd1"
      "children_virus_ptrs nd2 \<subseteq> children_virus_ptrs nd1"
      "parent_ids nd2 = parent_ids nd1 \<or> x \<in> Range (child_rel g1)"
      using b unfolding shrinks_def by blast
    then obtain nd where 0: "g x = Some nd" "virus nd1 = virus nd"
      "children_virus_ptrs nd1 \<subseteq> children_virus_ptrs nd"
      "parent_ids nd1 = parent_ids nd \<or> x \<in> Range (child_rel g)"
      using a unfolding shrinks_def by blast
    show "\<exists>nd. g x = Some nd \<and> virus nd2 = virus nd \<and>
               children_virus_ptrs nd2 \<subseteq> children_virus_ptrs nd \<and>
               (parent_ids nd2 = parent_ids nd \<or> x \<in> Range (child_rel g))"
      using 0 1 sub by auto
  qed
qed

lemma shrinks_parent_update:
  assumes "g c = Some cn" and "c \<in> Range (child_rel g)"
  shows "shrinks stem g (g(c \<mapsto> cn\<lparr>parent_ids := P\<rparr>))"
  using assms by (auto simp: shrinks_def)

lemma shrinks_child_erase:
  assumes "g p = Some pn"
  shows "shrinks stem g (g(p \<mapsto> pn\<lparr>children_virus_ptrs := children_virus_ptrs pn - H\<rparr>))"
  using assms by (auto simp: shrinks_def)

lemma shrinks_erase:
  assumes "v \<noteq> stem"
  shows "shrinks stem g (g(v := None))"
  using assms by (auto simp: shrinks_def)

lemma erase_from_parents_shrinks:
  "erase_from_parents v ps g = Some g' \<Longrightarrow> shrinks stem g g'"
proof (induction ps arbitrary: g)
  case Nil
  then show ?case by (simp add: shrinks_refl)
next
  case (Cons p ps)
  from Cons.prems obtain pn nd where pn: "g p = Some pn" and nd: "g v = Some nd"
    and rest: "erase_from_parents v ps
                 (g(p \<mapsto> pn\<lparr>children_virus_ptrs := children_virus_ptrs pn - {virus nd}\<rparr>)) = Some g'"
    by (auto split: option.splits)
  show ?case
    by (rule shrinks_trans[OF shrinks_child_erase[of g p pn stem, OF pn] Cons.IH[OF rest]])
qed

lemma undo_edges_shrinks:
  "undo_edges h ps g = Some g' \<Longrightarrow> shrinks stem g g'"
proof (induction ps arbitrary: g)
  case Nil
  then show ?case by (simp add: shrinks_refl)
next
  case (Cons p ps)
  from Cons.prems obtain pn where pn: "g p = Some pn"
    and rest: "undo_edges h ps
                 (g(p \<mapsto> pn\<lparr>children_virus_ptrs := children_virus_ptrs pn - {h}\<rparr>)) = Some g'"
    by (auto split: option.splits if_splits)
  show ?case
    by (rule shrinks_trans[OF shrinks_child_erase[of g p pn stem, OF pn] Cons.IH[OF rest]])
qed

subsection \<open>The steps of remove, one case at a time\<close>

lemma remove_children_get_id_fails:
  "Get_Id_Fails v (snd c) \<in> F \<Longrightarrow> remove_children rec F v (c # cs) g = Some (Throws BadAlloc g)"
  by simp

lemma remove_children_absent:
  "Get_Id_Fails v (snd c) \<notin> F \<Longrightarrow> g (snd c) = None \<Longrightarrow>
   remove_children rec F v (c # cs) g = Some Undefined"
  by simp

lemma remove_children_keep:
  "Get_Id_Fails v (snd c) \<notin> F \<Longrightarrow> g (snd c) = Some cn \<Longrightarrow> parent_ids cn - {v} \<noteq> {} \<Longrightarrow>
   remove_children rec F v (c # cs) g
     = remove_children rec F v cs (g(snd c \<mapsto> cn\<lparr>parent_ids := parent_ids cn - {v}\<rparr>))"
  by (simp add: Let_def)

lemma remove_children_rec_None:
  "Get_Id_Fails v (snd c) \<notin> F \<Longrightarrow> g (snd c) = Some cn \<Longrightarrow> parent_ids cn - {v} = {} \<Longrightarrow>
   rec (snd c) (g(snd c \<mapsto> cn\<lparr>parent_ids := parent_ids cn - {v}\<rparr>)) = None \<Longrightarrow>
   remove_children rec F v (c # cs) g = None"
  by (simp add: Let_def)

lemma remove_children_rec_Undefined:
  "Get_Id_Fails v (snd c) \<notin> F \<Longrightarrow> g (snd c) = Some cn \<Longrightarrow> parent_ids cn - {v} = {} \<Longrightarrow>
   rec (snd c) (g(snd c \<mapsto> cn\<lparr>parent_ids := parent_ids cn - {v}\<rparr>)) = Some Undefined \<Longrightarrow>
   remove_children rec F v (c # cs) g = Some Undefined"
  by (simp add: Let_def)

lemma remove_children_rec_Returns:
  "Get_Id_Fails v (snd c) \<notin> F \<Longrightarrow> g (snd c) = Some cn \<Longrightarrow> parent_ids cn - {v} = {} \<Longrightarrow>
   rec (snd c) (g(snd c \<mapsto> cn\<lparr>parent_ids := parent_ids cn - {v}\<rparr>)) = Some (Returns g2) \<Longrightarrow>
   remove_children rec F v (c # cs) g
     = (if g2 v = None then Some Undefined else remove_children rec F v cs g2)"
  by (simp add: Let_def)

lemma remove_children_rec_Throws:
  "Get_Id_Fails v (snd c) \<notin> F \<Longrightarrow> g (snd c) = Some cn \<Longrightarrow> parent_ids cn - {v} = {} \<Longrightarrow>
   rec (snd c) (g(snd c \<mapsto> cn\<lparr>parent_ids := parent_ids cn - {v}\<rparr>)) = Some (Throws e g2) \<Longrightarrow>
   remove_children rec F v (c # cs) g
     = (case g2 (snd c) of
          None \<Rightarrow> Some Undefined
        | Some cn2 \<Rightarrow>
            if Reinsert_Fails v (snd c) \<in> F then Some (Throws BadAlloc g2)
            else Some (Throws e (g2(snd c \<mapsto> cn2\<lparr>parent_ids := insert v (parent_ids cn2)\<rparr>))))"
  by (simp add: Let_def)

lemma remove_fuel_stem:
  "remove_fuel (Suc n) F stem stem g = Some (Throws TriedToRemoveStemVirus g)"
  by simp

lemma remove_fuel_absent:
  "v \<noteq> stem \<Longrightarrow> g v = None \<Longrightarrow> remove_fuel (Suc n) F stem v g = Some (Throws VirusNotFound g)"
  by simp

lemma remove_fuel_parent_its_fails:
  "v \<noteq> stem \<Longrightarrow> g v = Some nd \<Longrightarrow> sorted_list_of_set (parent_ids nd) \<noteq> [] \<Longrightarrow>
   Parent_Its_Fails v \<in> F \<Longrightarrow> remove_fuel (Suc n) F stem v g = Some (Throws BadAlloc g)"
  by (simp add: Let_def)

lemma remove_fuel_present:
  "v \<noteq> stem \<Longrightarrow> g v = Some nd \<Longrightarrow>
   sorted_list_of_set (parent_ids nd) = [] \<or> Parent_Its_Fails v \<notin> F \<Longrightarrow>
   remove_fuel (Suc n) F stem v g =
     (case remove_children (remove_fuel n F stem) F v (sorted_list_of_set (children_virus_ptrs nd)) g of
        None \<Rightarrow> None
      | Some (Returns g1) \<Rightarrow>
          (case erase_from_parents v (sorted_list_of_set (parent_ids nd)) g1 of
             None \<Rightarrow> Some Undefined
           | Some g2 \<Rightarrow> Some (Returns (g2(v := None))))
      | Some (Throws e g1) \<Rightarrow> Some (Throws e g1)
      | Some Undefined \<Rightarrow> Some Undefined)"
  by (auto simp add: Let_def)

declare remove_children.simps(2) [simp del]

declare remove_fuel.simps(2) [simp del]

text \<open>The loop over the children, for any recursive call that only shrinks the table.\<close>

lemma remove_children_shrinks:
  assumes rec: "\<And>c g r g'. rec c g = Some r \<Longrightarrow> state_after (Some r) = Some g' \<Longrightarrow> shrinks stem g g'"
  shows "remove_children rec F v cs g = Some r \<Longrightarrow> state_after (Some r) = Some g' \<Longrightarrow>
         shrinks stem G g \<Longrightarrow> snd ` set cs \<subseteq> Range (child_rel G) \<Longrightarrow> shrinks stem G g'"
proof (induction cs arbitrary: g)
  case Nil
  then show ?case by auto
next
  case (Cons c cs)
  show ?case
  proof (cases "Get_Id_Fails v (snd c) \<in> F")
    case True
    from remove_children_get_id_fails[OF True, of rec cs g] Cons.prems(1,2,3) show ?thesis by simp
  next
    case nf: False
    have cn_ex: "g (snd c) \<noteq> None"
    proof
      assume "g (snd c) = None"
      with remove_children_absent[OF nf, of g rec cs] Cons.prems(1,2) show False by simp
    qed
    then obtain cn where cn: "g (snd c) = Some cn" by auto
    let ?g1 = "g(snd c \<mapsto> cn\<lparr>parent_ids := parent_ids cn - {v}\<rparr>)"
    have inG: "snd c \<in> Range (child_rel G)" using Cons.prems(4) by simp
    have rest: "snd ` set cs \<subseteq> Range (child_rel G)" using Cons.prems(4) by simp
    have sub: "shrinks stem G (ga(snd c \<mapsto> n1\<lparr>parent_ids := P\<rparr>))"
      if s: "shrinks stem G ga" and n1: "ga (snd c) = Some n1" for ga n1 P
    proof -
      from s n1 obtain n0 where n0: "G (snd c) = Some n0" "virus n1 = virus n0"
        "children_virus_ptrs n1 \<subseteq> children_virus_ptrs n0"
        unfolding shrinks_def by blast
      have "\<exists>nd. G x = Some nd \<and> virus nd' = virus nd \<and>
                 children_virus_ptrs nd' \<subseteq> children_virus_ptrs nd \<and>
                 (parent_ids nd' = parent_ids nd \<or> x \<in> Range (child_rel G))"
        if x: "(ga(snd c \<mapsto> n1\<lparr>parent_ids := P\<rparr>)) x = Some nd'" for x nd'
      proof (cases "x = snd c")
        case True
        with x have "nd' = n1\<lparr>parent_ids := P\<rparr>" by simp
        with True n0 inG show ?thesis by simp
      next
        case False
        with x have "ga x = Some nd'" by simp
        with s show ?thesis unfolding shrinks_def by blast
      qed
      moreover have "G stem \<noteq> None \<longrightarrow> (ga(snd c \<mapsto> n1\<lparr>parent_ids := P\<rparr>)) stem \<noteq> None"
        using s unfolding shrinks_def by simp
      ultimately show ?thesis unfolding shrinks_def by blast
    qed
    have s1: "shrinks stem G ?g1" using sub[OF Cons.prems(3) cn] .
    show ?thesis
    proof (cases "parent_ids cn - {v} = {}")
      case False
      from remove_children_keep[where g=g and c=c and v=v and rec=rec, OF nf cn False] Cons.prems(1)
      have "remove_children rec F v cs ?g1 = Some r" by simp
      from Cons.IH[OF this Cons.prems(2) s1 rest] show ?thesis .
    next
      case True
      show ?thesis
      proof (cases "rec (snd c) ?g1")
        case None
        from remove_children_rec_None[where g=g and c=c and v=v and rec=rec, OF nf cn True None]
          Cons.prems(1) show ?thesis by simp
      next
        case (Some r1)
        show ?thesis
        proof (cases r1)
          case (Returns g2)
          have "state_after (Some r1) = Some g2" using Returns by simp
          from rec[OF Some this] have "shrinks stem ?g1 g2" .
          with s1 have s2: "shrinks stem G g2" by (rule shrinks_trans)
          from remove_children_rec_Returns[where g=g and c=c and v=v and rec=rec,
                 OF nf cn True Some[unfolded Returns]] Cons.prems(1,2)
          have "remove_children rec F v cs g2 = Some r"
            by (cases "g2 v = None") simp_all
          from Cons.IH[OF this Cons.prems(2) s2 rest] show ?thesis .
        next
          case (Throws e g2)
          have "state_after (Some r1) = Some g2" using Throws by simp
          from rec[OF Some this] have "shrinks stem ?g1 g2" .
          with s1 have s2: "shrinks stem G g2" by (rule shrinks_trans)
          note step = remove_children_rec_Throws[where g=g and c=c and v=v and rec=rec,
                 OF nf cn True Some[unfolded Throws]]
          from step Cons.prems(1,2) obtain cn2 where cn2: "g2 (snd c) = Some cn2"
            by (cases "g2 (snd c)") auto
          show ?thesis
          proof (cases "Reinsert_Fails v (snd c) \<in> F")
            case True
            with step cn2 Cons.prems(1,2) have "g' = g2" by auto
            with s2 show ?thesis by simp
          next
            case False
            with step cn2 Cons.prems(1,2)
            have g': "g' = g2(snd c \<mapsto> cn2\<lparr>parent_ids := insert v (parent_ids cn2)\<rparr>)" by auto
            show ?thesis unfolding g' using sub[OF s2 cn2] .
          qed
        next
          case Undefined
          from remove_children_rec_Undefined[where g=g and c=c and v=v and rec=rec,
                 OF nf cn True Some[unfolded Undefined]] Cons.prems(1,2)
          show ?thesis by simp
        qed
      qed
    qed
  qed
qed

lemma remove_fuel_shrinks:
  "remove_fuel n F stem v g = Some r \<Longrightarrow> state_after (Some r) = Some g' \<Longrightarrow> shrinks stem g g'"
proof (induction n arbitrary: v g r g')
  case 0
  then show ?case by simp
next
  case (Suc n)
  show ?case
  proof (cases "v = stem")
    case True
    with Suc.prems show ?thesis by (auto simp: remove_fuel_stem shrinks_refl)
  next
    case vs: False
    show ?thesis
    proof (cases "g v")
      case None
      with remove_fuel_absent[of v stem g n F] vs Suc.prems show ?thesis
        by (auto simp: shrinks_refl)
    next
      case (Some nd)
      show ?thesis
      proof (cases "sorted_list_of_set (parent_ids nd) \<noteq> [] \<and> Parent_Its_Fails v \<in> F")
        case True
        with remove_fuel_parent_its_fails[where g=g and v=v and F=F and n=n, OF vs Some]
          Suc.prems show ?thesis
          by (auto simp: shrinks_refl)
      next
        case False
        then have nopf: "sorted_list_of_set (parent_ids nd) = [] \<or> Parent_Its_Fails v \<notin> F"
          by blast
        let ?cs = "sorted_list_of_set (children_virus_ptrs nd)"
        have cs: "snd ` set ?cs \<subseteq> Range (child_rel g)"
        proof
          fix x assume "x \<in> snd ` set ?cs"
          then obtain h where "h \<in> children_virus_ptrs nd" "snd h = x"
            using set_sorted_list_of_set_subset[of "children_virus_ptrs nd"] by auto
          then have "(v, x) \<in> child_rel g" using Some unfolding child_rel_def by blast
          then show "x \<in> Range (child_rel g)" by blast
        qed
        note unf = remove_fuel_present[where g=g and v=v and n=n and F=F, OF vs Some nopf]
        have loop: "shrinks stem g g1"
          if "remove_children (remove_fuel n F stem) F v ?cs g = Some r1"
            "state_after (Some r1) = Some g1"
          for r1 g1
          by (rule remove_children_shrinks[where rec = "remove_fuel n F stem",
                OF Suc.IH that shrinks_refl cs])
        show ?thesis
        proof (cases "remove_children (remove_fuel n F stem) F v ?cs g")
          case None
          with unf Suc.prems show ?thesis by simp
        next
          case r1: (Some r1)
          show ?thesis
          proof (cases r1)
            case (Returns g1)
            have l: "shrinks stem g g1" using loop[OF r1] Returns by simp
            from unf r1 Returns Suc.prems obtain g2 where
              g2: "erase_from_parents v (sorted_list_of_set (parent_ids nd)) g1 = Some g2"
              and g': "g' = g2(v := None)"
              by (cases "erase_from_parents v (sorted_list_of_set (parent_ids nd)) g1") auto
            have "shrinks stem g g2"
              by (rule shrinks_trans[OF l erase_from_parents_shrinks[OF g2]])
            then show ?thesis unfolding g' by (rule shrinks_trans[OF _ shrinks_erase[OF vs]])
          next
            case (Throws e g1)
            with unf r1 Suc.prems have "g' = g1" by simp
            then show ?thesis using loop[OF r1] Throws by simp
          next
            case Undefined
            with unf r1 Suc.prems show ?thesis by simp
          qed
        qed
      qed
    qed
  qed
qed

section \<open>The loop of remove reads a child set that no recursive call changes\<close>

text \<open>
  The \<open>for\<close> loop of lines 260 to 271 walks the child set of the node while recursive
  calls run. A recursive call is made on a child whose parent set is empty, so it records
  no parent iterators and erases from no child set (lines 273 to 275 do nothing); it only
  erases whole nodes. Hence the child set the loop walks stays as it was on entry, as long
  as its node is in the table, and the model may take the list of children once.
\<close>

lemma same_children_refl: "same_children g g"
  by (simp add: same_children_def)

lemma same_children_trans:
  "same_children g g1 \<Longrightarrow> same_children g1 g2 \<Longrightarrow> same_children g g2"
  unfolding same_children_def by fastforce

lemma same_children_parent_update:
  assumes "g c = Some cn"
  shows "same_children g (g(c \<mapsto> cn\<lparr>parent_ids := P\<rparr>))"
  using assms by (auto simp: same_children_def)

lemma same_children_erase: "same_children g (g(v := None))"
  by (auto simp: same_children_def)

lemma remove_children_same_children:
  assumes rec: "\<And>c g r g'. rec c g = Some r \<Longrightarrow> state_after (Some r) = Some g' \<Longrightarrow>
                  (\<forall>nd. g c = Some nd \<longrightarrow> parent_ids nd = {}) \<Longrightarrow> same_children g g'"
  shows "remove_children rec F v cs g = Some r \<Longrightarrow> state_after (Some r) = Some g' \<Longrightarrow>
         same_children g g'"
proof (induction cs arbitrary: g)
  case Nil
  then show ?case by (auto simp: same_children_refl)
next
  case (Cons c cs)
  show ?case
  proof (cases "Get_Id_Fails v (snd c) \<in> F")
    case True
    from remove_children_get_id_fails[OF True, of rec cs g] Cons.prems show ?thesis
      by (auto simp: same_children_refl)
  next
    case nf: False
    have "g (snd c) \<noteq> None"
    proof
      assume "g (snd c) = None"
      with remove_children_absent[OF nf, of g rec cs] Cons.prems show False by simp
    qed
    then obtain cn where cn: "g (snd c) = Some cn" by auto
    let ?g1 = "g(snd c \<mapsto> cn\<lparr>parent_ids := parent_ids cn - {v}\<rparr>)"
    have s1: "same_children g ?g1" using cn by (rule same_children_parent_update)
    show ?thesis
    proof (cases "parent_ids cn - {v} = {}")
      case False
      from remove_children_keep[where g=g and c=c and v=v and rec=rec, OF nf cn False] Cons.prems(1)
      have "remove_children rec F v cs ?g1 = Some r" by simp
      from same_children_trans[OF s1 Cons.IH[OF this Cons.prems(2)]] show ?thesis .
    next
      case True
      have empty: "\<forall>nd. ?g1 (snd c) = Some nd \<longrightarrow> parent_ids nd = {}" using True by simp
      show ?thesis
      proof (cases "rec (snd c) ?g1")
        case None
        from remove_children_rec_None[where g=g and c=c and v=v and rec=rec, OF nf cn True None]
          Cons.prems(1) show ?thesis by simp
      next
        case (Some r1)
        show ?thesis
        proof (cases r1)
          case (Returns g2)
          have "state_after (Some r1) = Some g2" using Returns by simp
          from same_children_trans[OF s1 rec[OF Some this empty]] have s2: "same_children g g2" .
          from remove_children_rec_Returns[where g=g and c=c and v=v and rec=rec,
                OF nf cn True Some[unfolded Returns]] Cons.prems
          have "remove_children rec F v cs g2 = Some r" by (cases "g2 v = None") simp_all
          from same_children_trans[OF s2 Cons.IH[OF this Cons.prems(2)]] show ?thesis .
        next
          case (Throws e g2)
          have "state_after (Some r1) = Some g2" using Throws by simp
          from same_children_trans[OF s1 rec[OF Some this empty]] have s2: "same_children g g2" .
          note step = remove_children_rec_Throws[where g=g and c=c and v=v and rec=rec,
                OF nf cn True Some[unfolded Throws]]
          from step Cons.prems obtain cn2 where cn2: "g2 (snd c) = Some cn2"
            by (cases "g2 (snd c)") auto
          show ?thesis
          proof (cases "Reinsert_Fails v (snd c) \<in> F")
            case True
            with step cn2 Cons.prems have "g' = g2" by auto
            with s2 show ?thesis by simp
          next
            case False
            with step cn2 Cons.prems
            have g': "g' = g2(snd c \<mapsto> cn2\<lparr>parent_ids := insert v (parent_ids cn2)\<rparr>)" by auto
            have "same_children g2 (g2(snd c \<mapsto> cn2\<lparr>parent_ids := insert v (parent_ids cn2)\<rparr>))"
              using cn2 by (rule same_children_parent_update)
            with s2 show ?thesis unfolding g' by (rule same_children_trans)
          qed
        next
          case Undefined
          from remove_children_rec_Undefined[where g=g and c=c and v=v and rec=rec,
                OF nf cn True Some[unfolded Undefined]] Cons.prems
          show ?thesis by simp
        qed
      qed
    qed
  qed
qed

lemma remove_fuel_same_children:
  "remove_fuel n F stem v g = Some r \<Longrightarrow> state_after (Some r) = Some g' \<Longrightarrow>
   (\<forall>nd. g v = Some nd \<longrightarrow> parent_ids nd = {}) \<Longrightarrow> same_children g g'"
proof (induction n arbitrary: v g r g')
  case 0
  then show ?case by simp
next
  case (Suc n)
  show ?case
  proof (cases "v = stem")
    case True
    with Suc.prems show ?thesis by (auto simp: remove_fuel_stem same_children_refl)
  next
    case vs: False
    show ?thesis
    proof (cases "g v")
      case None
      with remove_fuel_absent[of v stem g n F] vs Suc.prems show ?thesis
        by (auto simp: same_children_refl)
    next
      case (Some nd)
      with Suc.prems(3) have np: "parent_ids nd = {}" by simp
      then have nopf: "sorted_list_of_set (parent_ids nd) = [] \<or> Parent_Its_Fails v \<notin> F"
        by simp
      let ?cs = "sorted_list_of_set (children_virus_ptrs nd)"
      note unf = remove_fuel_present[where g=g and v=v and n=n and stem=stem and F=F,
                   OF vs Some nopf]
      have loop: "same_children g g1"
        if "remove_children (remove_fuel n F stem) F v ?cs g = Some r1"
          "state_after (Some r1) = Some g1"
        for r1 g1
        by (rule remove_children_same_children[where rec = "remove_fuel n F stem", OF Suc.IH that])
      show ?thesis
      proof (cases "remove_children (remove_fuel n F stem) F v ?cs g")
        case None
        with unf Suc.prems show ?thesis by simp
      next
        case r1: (Some r1)
        show ?thesis
        proof (cases r1)
          case (Returns g1)
          have l: "same_children g g1" using loop[OF r1] Returns by simp
          from unf r1 Returns Suc.prems np have g': "g' = g1(v := None)" by simp
          show ?thesis unfolding g' by (rule same_children_trans[OF l same_children_erase])
        next
          case (Throws e g1)
          with unf r1 Suc.prems have "g' = g1" by simp
          then show ?thesis using loop[OF r1] Throws by simp
        next
          case Undefined
          with unf r1 Suc.prems show ?thesis by simp
        qed
      qed
    qed
  qed
qed

section \<open>The root over the lifetime of the object\<close>

lemma child_rel_iff:
  "(p, c) \<in> child_rel g \<longleftrightarrow> (\<exists>pn h. g p = Some pn \<and> h \<in> children_virus_ptrs pn \<and> snd h = c)"
  by (simp add: child_rel_def)

lemma child_relI:
  "g p = Some pn \<Longrightarrow> h \<in> children_virus_ptrs pn \<Longrightarrow> (p, snd h) \<in> child_rel g"
  unfolding child_rel_iff by blast

lemma state_after_lift:
  "state_after (Some (lift vg r)) = map_option (\<lambda>g. vg\<lparr>graph := g\<rparr>) (state_after (Some r))"
  by (cases r) simp_all

lemma state_after_map_lift:
  "state_after (map_option (lift vg) ro) = map_option (\<lambda>g. vg\<lparr>graph := g\<rparr>) (state_after ro)"
  by (cases ro) (simp_all add: state_after_lift)

lemma root_clean_shrinks:
  assumes s: "shrinks stem g g'" and c: "root_clean stem g"
  shows "root_clean stem g'"
proof -
  from c obtain sn where sn: "g stem = Some sn" "parent_ids sn = {}"
    and i4: "I4 g" and nr: "stem \<notin> Range (child_rel g)"
    by (auto simp: root_clean_def I2_def)
  from s sn obtain sn' where sn': "g' stem = Some sn'" unfolding shrinks_def by auto
  with s obtain sn0 where "g stem = Some sn0"
    "parent_ids sn' = parent_ids sn0 \<or> stem \<in> Range (child_rel g)"
    unfolding shrinks_def by blast
  with sn nr have "parent_ids sn' = {}" by simp
  with sn' have "I2 stem g'" by (simp add: I2_def)
  moreover have "I4 g'"
    unfolding I4_def
  proof (intro allI impI)
    fix x nd' assume "g' x = Some nd'"
    with s obtain nd where "g x = Some nd" "virus nd' = virus nd" unfolding shrinks_def by blast
    with i4 show "snd (virus nd') = x" by (simp add: I4_def)
  qed
  moreover have "stem \<notin> Range (child_rel g')"
    using child_rel_shrinks[OF s] nr by blast
  ultimately show ?thesis by (simp add: root_clean_def)
qed

lemma root_clean_add_child_handle:
  assumes c: "root_clean stem g" and h: "snd h \<noteq> stem"
  shows "root_clean stem (add_child_handle h p g)"
proof (cases "g p")
  case None
  then show ?thesis using c by (simp add: add_child_handle_def modify_None)
next
  case (Some pn)
  let ?pn = "pn\<lparr>children_virus_ptrs := insert h (children_virus_ptrs pn)\<rparr>"
  have eq: "add_child_handle h p g = g(p \<mapsto> ?pn)"
    using Some by (simp add: add_child_handle_def modify_Some)
  have "I2 stem (g(p \<mapsto> ?pn))"
    using c Some by (auto simp: root_clean_def I2_def)
  moreover have "I4 (g(p \<mapsto> ?pn))"
    using c Some by (auto simp: root_clean_def I4_def)
  moreover have "stem \<notin> Range (child_rel (g(p \<mapsto> ?pn)))"
  proof
    assume "stem \<in> Range (child_rel (g(p \<mapsto> ?pn)))"
    then obtain q qn k where q: "(g(p \<mapsto> ?pn)) q = Some qn" "k \<in> children_virus_ptrs qn" "snd k = stem"
      unfolding Range_iff child_rel_iff by blast
    show False
    proof (cases "q = p")
      case True
      with q have "k = h \<or> k \<in> children_virus_ptrs pn" by auto
      then show False
      proof
        assume "k = h" with q h show False by simp
      next
        assume "k \<in> children_virus_ptrs pn"
        from child_relI[of g p pn k] Some this q(3) have "(p, stem) \<in> child_rel g" by simp
        with c show False by (auto simp: root_clean_def)
      qed
    next
      case False
      with q have "g q = Some qn" by simp
      from child_relI[of g q qn k] this q(2,3) have "(q, stem) \<in> child_rel g" by simp
      with c show False by (auto simp: root_clean_def)
    qed
  qed
  ultimately show ?thesis unfolding eq by (simp add: root_clean_def)
qed

lemma root_clean_fold_add:
  "root_clean stem g \<Longrightarrow> snd h \<noteq> stem \<Longrightarrow> root_clean stem (fold (add_child_handle h) ps g)"
  by (induction ps arbitrary: g) (simp_all add: root_clean_add_child_handle)

text \<open>Every way in which \<open>create\<close> can end.\<close>

lemma create_table_cases:
  "create_table a fault v ps g = Returns g \<or>
   create_table a fault v ps g = Throws VirusAlreadyCreated g \<or>
   create_table a fault v ps g = Throws VirusNotFound g \<or>
   (ps \<noteq> [] \<and> g v = None \<and> set ps \<subseteq> dom g \<and>
     ((\<exists>m m'. take m ps = rolled_back fault ps \<and> m \<le> m' \<and> m' \<le> Suc m \<and>
         (m' = Suc m \<longrightarrow> m < length ps \<and> fault = Some (Push_Back_Fails m)) \<and>
         create_table a fault v ps g =
            (case undo_edges (a, v) (take m ps) (fold (add_child_handle (a, v)) (take m' ps) g) of
               None \<Rightarrow> Undefined | Some g2 \<Rightarrow> Throws BadAlloc g2)) \<or>
      create_table a fault v ps g =
        Returns ((fold (add_child_handle (a, v)) ps g)
                   (v \<mapsto> \<lparr>virus = (a, v), parent_ids = set ps, children_virus_ptrs = {}\<rparr>))))"
proof (cases "ps = [] \<or> g v \<noteq> None \<or> \<not> set ps \<subseteq> dom g")
  case True
  then show ?thesis by (auto simp: create_table_def find_parents_iff)
next
  case False
  then have ne: "ps \<noteq> []" and new: "g v = None" and par: "set ps \<subseteq> dom g" by auto
  then have fp: "find_parents g ps" by (simp add: find_parents_iff)
  let ?undone = "\<lambda>m m'. create_table a fault v ps g =
            (case undo_edges (a, v) (take m ps) (fold (add_child_handle (a, v)) (take m' ps) g) of
               None \<Rightarrow> Undefined | Some g2 \<Rightarrow> Throws BadAlloc g2)"
  let ?fail = "\<exists>m m'. take m ps = rolled_back fault ps \<and> m \<le> m' \<and> m' \<le> Suc m \<and>
         (m' = Suc m \<longrightarrow> m < length ps \<and> fault = Some (Push_Back_Fails m)) \<and> ?undone m m'"
  let ?done = "create_table a fault v ps g =
        Returns ((fold (add_child_handle (a, v)) ps g)
                   (v \<mapsto> \<lparr>virus = (a, v), parent_ids = set ps, children_virus_ptrs = {}\<rparr>))"
  have "?fail \<or> ?done"
  proof (cases "\<exists>j < length ps. fault = Some (Child_Insert_Fails j)")
    case True
    then obtain j where j: "j < length ps" "fault = Some (Child_Insert_Fails j)" by blast
    then have "insert_edges fault (a, v) ps 0 g
                 = (fold (add_child_handle (a, v)) (take j ps) g, j, True)"
      using insert_edges_fails[of 0 j ps "(a, v)" g] by simp
    then have "?undone j j"
      using ne new fp by (simp add: create_table_def Node_def)
    with j have ?fail by (intro exI[of _ j]) simp
    then show ?thesis ..
  next
    case nc: False
    show ?thesis
    proof (cases "\<exists>j < length ps. fault = Some (Push_Back_Fails j)")
      case True
      then obtain j where j: "j < length ps" "fault = Some (Push_Back_Fails j)" by blast
      then have "insert_edges fault (a, v) ps 0 g
                   = (fold (add_child_handle (a, v)) (take (Suc j) ps) g, j, True)"
        using insert_edges_push_fails[of 0 j ps "(a, v)" g] by simp
      then have "?undone j (Suc j)"
        using ne new fp by (simp add: create_table_def Node_def)
      with j have ?fail by (intro exI[of _ j] exI[of _ "Suc j"]) simp
      then show ?thesis ..
    next
      case False
      with nc have "\<forall>j. fault = Some (Child_Insert_Fails j) \<or> fault = Some (Push_Back_Fails j)
                    \<longrightarrow> j < 0 \<or> 0 + length ps \<le> j"
        by (metis add_0 not_le_imp_less)
      from insert_edges_succeeds[OF this]
      have ie: "insert_edges fault (a, v) ps 0 g
                  = (fold (add_child_handle (a, v)) ps g, length ps, False)" by simp
      show ?thesis
      proof (cases "fault = Some Table_Insert_Fails")
        case True
        with ie have "?undone (length ps) (length ps)"
          using ne new fp by (simp add: create_table_def Node_def)
        with True have ?fail by (intro exI[of _ "length ps"]) simp
        then show ?thesis ..
      next
        case False
        with ie have ?done
          using ne new fp by (simp add: create_table_def Node_def)
        then show ?thesis ..
      qed
    qed
  qed
  with ne new par show ?thesis by simp
qed

lemma root_clean_new_node:
  assumes c: "root_clean stem g" and v: "v \<noteq> stem" and new: "g v = None"
  shows "root_clean stem (g(v \<mapsto> \<lparr>virus = (a, v), parent_ids = P, children_virus_ptrs = {}\<rparr>))"
proof -
  let ?g = "g(v \<mapsto> \<lparr>virus = (a, v), parent_ids = P, children_virus_ptrs = {}\<rparr>)"
  have "child_rel ?g \<subseteq> child_rel g"
  proof
    fix e assume e: "e \<in> child_rel ?g"
    obtain q x where qx: "e = (q, x)" by (cases e)
    with e have "(q, x) \<in> child_rel ?g" by simp
    then obtain qn h where h: "?g q = Some qn" "h \<in> children_virus_ptrs qn" "snd h = x"
      unfolding child_rel_iff by blast
    then have "q \<noteq> v" by auto
    with h have "g q = Some qn" by simp
    from child_relI[of g q qn h] this h(2,3) qx show "e \<in> child_rel g" by simp
  qed
  then have "stem \<notin> Range (child_rel ?g)" using c by (auto simp: root_clean_def)
  moreover have "I2 stem ?g" using c v by (auto simp: root_clean_def I2_def)
  moreover have "I4 ?g" using c by (auto simp: root_clean_def I4_def)
  ultimately show ?thesis by (simp add: root_clean_def)
qed

lemma create_table_root_clean:
  assumes c: "root_clean stem g"
    and r: "state_after (Some (create_table a fault v ps g)) = Some g'"
  shows "root_clean stem g'"
proof -
  have stem: "g stem \<noteq> None" using c by (auto simp: root_clean_def I2_def)
  from create_table_cases[of a fault v ps g] show ?thesis
  proof (elim disjE conjE exE)
    assume "create_table a fault v ps g = Returns g"
    with r c show ?thesis by simp
  next
    assume "create_table a fault v ps g = Throws VirusAlreadyCreated g"
    with r c show ?thesis by simp
  next
    assume "create_table a fault v ps g = Throws VirusNotFound g"
    with r c show ?thesis by simp
  next
    fix m m'
    assume new: "g v = None"
      and eq: "create_table a fault v ps g =
            (case undo_edges (a, v) (take m ps) (fold (add_child_handle (a, v)) (take m' ps) g) of
               None \<Rightarrow> Undefined | Some g2 \<Rightarrow> Throws BadAlloc g2)"
    from new stem have vs: "v \<noteq> stem" by auto
    from eq r have u: "undo_edges (a, v) (take m ps) (fold (add_child_handle (a, v)) (take m' ps) g) = Some g'"
      by (auto split: option.splits)
    have "root_clean stem (fold (add_child_handle (a, v)) (take m' ps) g)"
      using c vs by (simp add: root_clean_fold_add)
    with undo_edges_shrinks[OF u] show ?thesis by (rule root_clean_shrinks)
  next
    assume new: "g v = None"
      and eq: "create_table a fault v ps g =
        Returns ((fold (add_child_handle (a, v)) ps g)
                   (v \<mapsto> \<lparr>virus = (a, v), parent_ids = set ps, children_virus_ptrs = {}\<rparr>))"
    from new stem have vs: "v \<noteq> stem" by auto
    have 1: "root_clean stem (fold (add_child_handle (a, v)) ps g)"
      using c vs by (simp add: root_clean_fold_add)
    have 2: "fold (add_child_handle (a, v)) ps g v = None"
      using new fold_add_dom[of "(a, v)" ps g] by (metis domIff)
    from eq r have "g' = (fold (add_child_handle (a, v)) ps g)
                   (v \<mapsto> \<lparr>virus = (a, v), parent_ids = set ps, children_virus_ptrs = {}\<rparr>)"
      by simp
    then show ?thesis using root_clean_new_node[OF 1 vs 2] by simp
  qed
qed

lemma create_table_keeps_root:
  assumes stem: "g stem \<noteq> None"
    and r: "state_after (Some (create_table a fault v ps g)) = Some g'"
  shows "g' stem \<noteq> None"
proof -
  from create_table_cases[of a fault v ps g] show ?thesis
  proof (elim disjE conjE exE)
    assume "create_table a fault v ps g = Returns g"
    with r stem show ?thesis by simp
  next
    assume "create_table a fault v ps g = Throws VirusAlreadyCreated g"
    with r stem show ?thesis by simp
  next
    assume "create_table a fault v ps g = Throws VirusNotFound g"
    with r stem show ?thesis by simp
  next
    fix m m'
    assume eq: "create_table a fault v ps g =
            (case undo_edges (a, v) (take m ps) (fold (add_child_handle (a, v)) (take m' ps) g) of
               None \<Rightarrow> Undefined | Some g2 \<Rightarrow> Throws BadAlloc g2)"
    from eq r have u: "undo_edges (a, v) (take m ps) (fold (add_child_handle (a, v)) (take m' ps) g) = Some g'"
      by (auto split: option.splits)
    have "fold (add_child_handle (a, v)) (take m' ps) g stem \<noteq> None"
      using stem fold_add_dom[of "(a, v)" "take m' ps" g] by (metis domIff)
    with undo_edges_shrinks[OF u, of stem] show ?thesis by (simp add: shrinks_def)
  next
    assume eq: "create_table a fault v ps g =
        Returns ((fold (add_child_handle (a, v)) ps g)
                   (v \<mapsto> \<lparr>virus = (a, v), parent_ids = set ps, children_virus_ptrs = {}\<rparr>))"
    have "fold (add_child_handle (a, v)) ps g stem \<noteq> None"
      using stem fold_add_dom[of "(a, v)" ps g] by (metis domIff)
    with eq r show ?thesis by auto
  qed
qed

text \<open>Every way in which \<open>connect\<close> can end.\<close>

lemma connect_table_cases:
  "connect_table fault child p g = Throws VirusNotFound g \<or>
   connect_table fault child p g = Returns g \<or>
   connect_table fault child p g = Throws BadAlloc g \<or>
   (\<exists>cn. g child = Some cn \<and> g p \<noteq> None \<and> p \<notin> parent_ids cn \<and> fault = None \<and>
      connect_table fault child p g =
        Returns (add_child_handle (virus cn) p
                   (g(child \<mapsto> cn\<lparr>parent_ids := insert p (parent_ids cn)\<rparr>))))"
proof (cases "g child")
  case None
  then show ?thesis by (simp add: connect_table_absent)
next
  case cn: (Some cn)
  show ?thesis
  proof (cases "g p")
    case None
    then show ?thesis by (simp add: connect_table_absent)
  next
    case pn: (Some pn)
    then have p: "g p \<noteq> None" by simp
    show ?thesis
    proof (cases "p \<in> parent_ids cn")
      case True
      from connect_table_present[where g=g and c=child, OF cn p True] show ?thesis by simp
    next
      case False
      show ?thesis
      proof (cases fault)
        case None
        with cn pn False have "connect_table fault child p g =
          Returns (add_child_handle (virus cn) p
                   (g(child \<mapsto> cn\<lparr>parent_ids := insert p (parent_ids cn)\<rparr>)))"
          by (simp add: connect_table_def add_child_handle_def modify_Some)
        with cn p False None show ?thesis by blast
      next
        case (Some f)
        show ?thesis
        proof (cases f)
          case Parent_Id_Insert_Fails
          with Some cn pn False show ?thesis by (simp add: connect_table_def)
        next
          case Child_Ptr_Insert_Fails
          with Some connect_table_rollback[where g=g and c=child, OF cn p False]
          show ?thesis by simp
        qed
      qed
    qed
  qed
qed

lemma connect_table_keeps_root:
  assumes stem: "g stem \<noteq> None"
    and r: "state_after (Some (connect_table fault c p g)) = Some g'"
  shows "g' stem \<noteq> None"
proof -
  from connect_table_cases[of fault c p g] show ?thesis
  proof (elim disjE exE conjE)
    fix cn
    assume "g c = Some cn"
      and eq: "connect_table fault c p g =
        Returns (add_child_handle (virus cn) p (g(c \<mapsto> cn\<lparr>parent_ids := insert p (parent_ids cn)\<rparr>)))"
    from eq r have "g' = add_child_handle (virus cn) p
                            (g(c \<mapsto> cn\<lparr>parent_ids := insert p (parent_ids cn)\<rparr>))" by simp
    then have "dom g' = insert c (dom g)" by (simp add: add_child_handle_dom)
    moreover have "stem \<in> dom g" using stem by auto
    ultimately have "stem \<in> dom g'" by simp
    then show ?thesis by auto
  qed (use r stem in simp_all)
qed

lemma root_clean_parent_update:
  assumes c: "root_clean stem g" and cn: "g child = Some cn" and cs: "child \<noteq> stem"
  shows "root_clean stem (g(child \<mapsto> cn\<lparr>parent_ids := P\<rparr>))"
proof -
  let ?g = "g(child \<mapsto> cn\<lparr>parent_ids := P\<rparr>)"
  have "child_rel ?g \<subseteq> child_rel g"
  proof
    fix e assume e: "e \<in> child_rel ?g"
    obtain q x where qx: "e = (q, x)" by (cases e)
    with e have "(q, x) \<in> child_rel ?g" by simp
    then obtain qn h where h: "?g q = Some qn" "h \<in> children_virus_ptrs qn" "snd h = x"
      unfolding child_rel_iff by blast
    have "\<exists>qn0. g q = Some qn0 \<and> h \<in> children_virus_ptrs qn0"
      using h cn by (cases "q = child") auto
    then obtain qn0 where "g q = Some qn0" "h \<in> children_virus_ptrs qn0" by blast
    from child_relI[of g q qn0 h] this h(3) qx show "e \<in> child_rel g" by simp
  qed
  then have "stem \<notin> Range (child_rel ?g)" using c by (auto simp: root_clean_def)
  moreover have "I2 stem ?g" using c cs by (auto simp: root_clean_def I2_def)
  moreover have "I4 ?g" using c cn by (auto simp: root_clean_def I4_def)
  ultimately show ?thesis by (simp add: root_clean_def)
qed

lemma connect_table_root_clean:
  assumes c: "root_clean stem g" and cs: "child \<noteq> stem"
    and r: "state_after (Some (connect_table fault child p g)) = Some g'"
  shows "root_clean stem g'"
proof -
  from connect_table_cases[of fault child p g] show ?thesis
  proof (elim disjE exE conjE)
    fix cn
    assume cn: "g child = Some cn"
      and eq: "connect_table fault child p g =
        Returns (add_child_handle (virus cn) p
                   (g(child \<mapsto> cn\<lparr>parent_ids := insert p (parent_ids cn)\<rparr>)))"
    have "snd (virus cn) \<noteq> stem"
      using c cn cs by (auto simp: root_clean_def I4_def)
    from root_clean_add_child_handle[OF root_clean_parent_update[OF c cn cs] this] eq r
    show ?thesis by auto
  qed (use r c in simp_all)
qed

lemma run_call_stem_id:
  "state_after (run_call c vg) = Some vg' \<Longrightarrow> stem_id vg' = stem_id vg"
  by (cases c)
     (auto simp: create_def connect_def remove_def state_after_lift state_after_map_lift)

lemma run_call_keeps_root:
  assumes "graph vg (stem_id vg) \<noteq> None" and "state_after (run_call c vg) = Some vg'"
  shows "graph vg' (stem_id vg) \<noteq> None"
proof (cases c)
  case (Create a fault v ps)
  with assms show ?thesis
    using create_table_keeps_root[of "graph vg" "stem_id vg" a fault v ps]
    by (auto simp: create_def state_after_lift)
next
  case (Connect fault ch p)
  with assms show ?thesis
    using connect_table_keeps_root[of "graph vg" "stem_id vg" fault ch p]
    by (auto simp: connect_def state_after_lift)
next
  case (Remove n F v)
  with assms obtain r g' where r: "remove_fuel n F (stem_id vg) v (graph vg) = Some r"
    "state_after (Some r) = Some g'" "vg' = vg\<lparr>graph := g'\<rparr>"
    by (cases "remove_fuel n F (stem_id vg) v (graph vg)")
       (auto simp: remove_def state_after_lift)
  from remove_fuel_shrinks[OF r(1,2)] assms(1) r(3) show ?thesis
    by (simp add: shrinks_def)
qed

lemma run_call_root_clean:
  assumes "root_clean (stem_id vg) (graph vg)" and "\<not> connects_child (stem_id vg) c"
    and "state_after (run_call c vg) = Some vg'"
  shows "root_clean (stem_id vg) (graph vg')"
proof (cases c)
  case (Create a fault v ps)
  with assms show ?thesis
    using create_table_root_clean[of "stem_id vg" "graph vg" a fault v ps]
    by (auto simp: create_def state_after_lift)
next
  case (Connect fault ch p)
  with assms show ?thesis
    using connect_table_root_clean[of "stem_id vg" "graph vg" ch fault p]
    by (auto simp: connect_def state_after_lift)
next
  case (Remove n F v)
  with assms obtain r g' where r: "remove_fuel n F (stem_id vg) v (graph vg) = Some r"
    "state_after (Some r) = Some g'" "vg' = vg\<lparr>graph := g'\<rparr>"
    by (cases "remove_fuel n F (stem_id vg) v (graph vg)")
       (auto simp: remove_def state_after_lift)
  from root_clean_shrinks[OF remove_fuel_shrinks[OF r(1,2)] assms(1)] r(3) show ?thesis
    by simp
qed

lemma run_calls_keeps_root:
  "graph vg (stem_id vg) \<noteq> None \<Longrightarrow> run_calls cs vg = Some vg' \<Longrightarrow>
   stem_id vg' = stem_id vg \<and> graph vg' (stem_id vg) \<noteq> None"
proof (induction cs arbitrary: vg)
  case Nil
  then show ?case by simp
next
  case (Cons c cs)
  from Cons.prems(2) obtain vg1 where 1: "state_after (run_call c vg) = Some vg1"
    and 2: "run_calls cs vg1 = Some vg'"
    by (auto split: option.splits)
  have s: "stem_id vg1 = stem_id vg" using 1 by (rule run_call_stem_id)
  have "graph vg1 (stem_id vg1) \<noteq> None"
    using run_call_keeps_root[OF Cons.prems(1) 1] s by simp
  from Cons.IH[OF this 2] s show ?case by simp
qed

lemma run_calls_root_clean:
  "root_clean (stem_id vg) (graph vg) \<Longrightarrow> \<forall>c \<in> set cs. \<not> connects_child (stem_id vg) c \<Longrightarrow>
   run_calls cs vg = Some vg' \<Longrightarrow> root_clean (stem_id vg) (graph vg')"
proof (induction cs arbitrary: vg)
  case Nil
  then show ?case by simp
next
  case (Cons c cs)
  from Cons.prems(3) obtain vg1 where 1: "state_after (run_call c vg) = Some vg1"
    and 2: "run_calls cs vg1 = Some vg'"
    by (auto split: option.splits)
  have s: "stem_id vg1 = stem_id vg" using 1 by (rule run_call_stem_id)
  have "root_clean (stem_id vg1) (graph vg1)"
    using run_call_root_clean[OF Cons.prems(1) _ 1] Cons.prems(2) s by simp
  moreover have "\<forall>c \<in> set cs. \<not> connects_child (stem_id vg1) c"
    using Cons.prems(2) s by simp
  ultimately show ?case using Cons.IH[OF _ _ 2] s by simp
qed

lemma root_clean_init: "root_clean stem (graph (VirusGenealogy a stem))"
  by (auto simp: root_clean_def I2_def I4_def child_rel_def VirusGenealogy_def Node_def
        split: if_splits)


section \<open>The examples are reached by calls\<close>

lemma example_SX_calls:
  "run_calls [Create 1 None ''X'' [''S'']] (VirusGenealogy 0 ''S'') = Some example_SX"
  by (simp add: example_SX_def VirusGenealogy_def create_def create_table_def Node_def modify_def
        fun_upd_twist)

lemma example_root_child_calls:
  "run_calls [Create 1 None ''X'' [''S''], Connect None ''S'' ''X''] (VirusGenealogy 0 ''S'')
     = Some example_root_child"
  by (simp add: example_root_child_def VirusGenealogy_def create_def create_table_def Node_def
        connect_def connect_table_def modify_def fun_upd_twist)

lemma example_siblings_calls:
  "run_calls [Create 1 None ''X'' [''S''], Create 2 None ''C'' [''X''], Connect None ''S'' ''X'']
     (VirusGenealogy 5 ''S'') = Some example_siblings"
  by (simp add: example_siblings_def VirusGenealogy_def create_def create_table_def Node_def
        connect_def connect_table_def modify_def fun_upd_twist insert_commute)

section \<open>remove and the root\<close>

text \<open>
  Claim C2 fails on the code. In \<open>example_siblings\<close>, \<open>remove("X")\<close> first handles the
  child \<open>C\<close>, whose parent set becomes empty, and removes it; then it handles the child
  \<open>S\<close>, the recursive call throws \<open>TriedToRemoveStemVirus\<close>, and the handler puts \<open>X\<close>
  back into the parent set of \<open>S\<close> only. The call throws and \<open>C\<close> is gone.
\<close>

theorem remove_throws_after_sibling_removed:
  "exists ''C'' example_siblings \<and>
   remove 2 {} ''X'' example_siblings = Some (Throws TriedToRemoveStemVirus example_siblings_after) \<and>
   \<not> exists ''C'' example_siblings_after \<and>
   example_siblings_after \<noteq> example_siblings"
proof -
  have cs: "sorted_list_of_set {(2::nat, ''C''), (5, ''S'')} = [(2, ''C''), (5, ''S'')]"
    by simp
  have r: "remove 2 {} ''X'' example_siblings = Some (Throws TriedToRemoveStemVirus example_siblings_after)"
    by (simp add: remove_def example_siblings_def example_siblings_after_def cs
          remove_fuel.simps remove_children.simps numeral_2_eq_2 fun_upd_twist)
  have "graph example_siblings_after ''C'' \<noteq> graph example_siblings ''C''"
    by (simp add: example_siblings_def example_siblings_after_def)
  then have "example_siblings_after \<noteq> example_siblings" by auto
  with r show ?thesis
    by (simp add: exists_def example_siblings_def example_siblings_after_def)
qed

text \<open>
  Claim C5, as stated, fails: \<open>connect\<close> accepts the root as the child, and after
  \<open>connect("S", "X")\<close> the root \<open>S\<close> has the parent \<open>X\<close>.
\<close>

theorem root_gets_parent_counterexample:
  "connect None ''S'' ''X'' example_SX = Returns example_root_child \<and>
   graph example_root_child (stem_id example_root_child)
     = Some \<lparr>virus = (0, ''S''), parent_ids = {''X''}, children_virus_ptrs = {(1, ''X'')}\<rparr>"
  by (simp add: example_SX_def example_root_child_def connect_def connect_table_def modify_def
        fun_upd_twist)

text \<open>
  Claim C5, amended. On every object, \<open>remove\<close> of the root identifier throws
  \<open>TriedToRemoveStemVirus\<close> before any lookup, whatever the table holds, and \<open>remove\<close> of
  any other identifier that is absent throws \<open>VirusNotFound\<close>; both leave the object
  unchanged, whatever faults are injected. After any sequence of calls on a new object,
  with any injected failures, the root is in the table; and if no call of the sequence was
  \<open>connect\<close> with the root as the child, the root has no parents.
\<close>

theorem root_lifetime:
  "(\<forall>n. remove (Suc n) F (stem_id vg0) vg0 = Some (Throws TriedToRemoveStemVirus vg0)) \<and>
   (\<forall>n. vid \<noteq> stem_id vg0 \<and> \<not> exists vid vg0 \<longrightarrow>
        remove (Suc n) F vid vg0 = Some (Throws VirusNotFound vg0)) \<and>
   (run_calls cs (VirusGenealogy a stem) = Some vg \<longrightarrow>
      stem_id vg = stem \<and> exists stem vg \<and>
      ((\<forall>c \<in> set cs. \<not> connects_child stem c) \<longrightarrow>
         (\<exists>sn. graph vg stem = Some sn \<and> parent_ids sn = {})))"
proof (intro conjI allI impI)
  fix n
  show "remove (Suc n) F (stem_id vg0) vg0 = Some (Throws TriedToRemoveStemVirus vg0)"
    by (simp add: remove_def remove_fuel_stem)
next
  fix n
  assume "vid \<noteq> stem_id vg0 \<and> \<not> exists vid vg0"
  then show "remove (Suc n) F vid vg0 = Some (Throws VirusNotFound vg0)"
    by (simp add: remove_def exists_def remove_fuel_absent)
next
  assume run: "run_calls cs (VirusGenealogy a stem) = Some vg"
  have init: "graph (VirusGenealogy a stem) (stem_id (VirusGenealogy a stem)) \<noteq> None"
    "stem_id (VirusGenealogy a stem) = stem"
    by (simp_all add: VirusGenealogy_def)
  from run_calls_keeps_root[OF init(1) run] init(2)
  show "stem_id vg = stem" and "exists stem vg" by (simp_all add: exists_def)
  assume "\<forall>c \<in> set cs. \<not> connects_child stem c"
  with run_calls_root_clean[of "VirusGenealogy a stem" cs vg] root_clean_init[of stem a] run init(2)
  have "root_clean stem (graph vg)" by simp
  then show "\<exists>sn. graph vg stem = Some sn \<and> parent_ids sn = {}"
    by (simp add: root_clean_def I2_def)
qed

theorem root_lifetime_witness:
  "remove 1 {} ''S'' example_AB = Some (Throws TriedToRemoveStemVirus example_AB) \<and>
   remove 1 {} ''Z'' example_AB = Some (Throws VirusNotFound example_AB) \<and>
   exists ''S'' example_AB \<and>
   (\<exists>sn. graph example_AB ''S'' = Some sn \<and> parent_ids sn = {})"
proof -
  let ?cs = "[Create 1 None ''A'' [''S''], Create 2 None ''B'' [''S'']]"
  have s: "stem_id example_AB = ''S''" by (simp add: example_AB_def)
  have z: "''Z'' \<noteq> stem_id example_AB \<and> \<not> exists ''Z'' example_AB"
    by (simp add: example_AB_def exists_def)
  have nc: "\<forall>c \<in> set ?cs. \<not> connects_child ''S'' c" by simp
  from root_lifetime [where F="{}" and ?vg0.0=example_AB and vid="''Z''" and cs="?cs" and a=0
         and stem="''S''" and vg=example_AB] s z nc example_AB_calls
  show ?thesis by (simp del: run_calls.simps)
qed

section \<open>get_parents\<close>

text \<open>
  Claim C9, as stated, fails for the root: after \<open>connect("S", "X")\<close> the call
  \<open>get_parents("S")\<close> returns \<open>["X"]\<close>, not the empty sequence.
\<close>

theorem get_parents_root_counterexample:
  "run_calls [Create 1 None ''X'' [''S''], Connect None ''S'' ''X''] (VirusGenealogy 0 ''S'')
     = Some example_root_child \<and>
   get_parents ''S'' example_root_child = Inr [''X'']"
  using example_root_child_calls by (simp add: get_parents_def example_root_child_def)

text \<open>
  Claim C9, amended. \<open>get_parents\<close> throws \<open>VirusNotFound\<close> for an absent identifier.
  For a present one it returns a list, a value of its own that later calls cannot change,
  holding exactly the parent identifiers of the node at the time of the call, each once and
  in increasing order; the object is not touched (the function returns no object). For the
  root the list is empty in every object reached from a new one by calls none of which is
  \<open>connect\<close> with the root as the child.
\<close>

theorem get_parents_spec:
  "(\<not> exists vid vg \<longrightarrow> get_parents vid vg = Inl VirusNotFound) \<and>
   (\<forall>nd. graph vg vid = Some nd \<longrightarrow>
      (\<exists>ps. get_parents vid vg = Inr ps \<and>
         (finite (parent_ids nd) \<longrightarrow> set ps = parent_ids nd \<and> sorted ps \<and> distinct ps))) \<and>
   (run_calls cs (VirusGenealogy a stem) = Some vg \<and> (\<forall>c \<in> set cs. \<not> connects_child stem c) \<longrightarrow>
      get_parents stem vg = Inr [])"
proof (intro conjI allI impI)
  assume "\<not> exists vid vg"
  then show "get_parents vid vg = Inl VirusNotFound"
    by (simp add: exists_def get_parents_def)
next
  fix nd
  assume "graph vg vid = Some nd"
  then have "get_parents vid vg = Inr (sorted_list_of_set (parent_ids nd))"
    by (simp add: get_parents_def)
  then show "\<exists>ps. get_parents vid vg = Inr ps \<and>
         (finite (parent_ids nd) \<longrightarrow> set ps = parent_ids nd \<and> sorted ps \<and> distinct ps)"
    by simp
next
  assume a: "run_calls cs (VirusGenealogy a stem) = Some vg \<and> (\<forall>c \<in> set cs. \<not> connects_child stem c)"
  have init: "stem_id (VirusGenealogy a stem) = stem" by (simp add: VirusGenealogy_def)
  from run_calls_root_clean[of "VirusGenealogy a stem" cs vg] root_clean_init[of stem a] a init
  have "root_clean stem (graph vg)" by simp
  then show "get_parents stem vg = Inr []"
    by (auto simp: root_clean_def I2_def get_parents_def)
qed

theorem get_parents_spec_witness:
  "get_parents ''Z'' example_AB = Inl VirusNotFound \<and>
   (\<exists>ps. get_parents ''A'' example_AB = Inr ps \<and> set ps = {''S''} \<and> sorted ps \<and> distinct ps) \<and>
   get_parents ''S'' example_AB = Inr []"
proof -
  let ?cs = "[Create 1 None ''A'' [''S''], Create 2 None ''B'' [''S'']]"
  let ?A = "\<lparr>virus = (1, ''A''), parent_ids = {''S''}, children_virus_ptrs = {}\<rparr>"
  have z: "\<not> exists ''Z'' example_AB" by (simp add: example_AB_def exists_def)
  have a: "graph example_AB ''A'' = Some ?A" by (simp add: example_AB_def)
  have f: "finite (parent_ids ?A)" by simp
  have nc: "\<forall>c \<in> set ?cs. \<not> connects_child ''S'' c" by simp
  from get_parents_spec [of "''Z''" example_AB ?cs 0 "''S''"] z
  have 1: "get_parents ''Z'' example_AB = Inl VirusNotFound" by blast
  from get_parents_spec [of "''A''" example_AB ?cs 0 "''S''"] a f
  have 2: "\<exists>ps. get_parents ''A'' example_AB = Inr ps \<and> set ps = {''S''} \<and> sorted ps \<and> distinct ps"
    by fastforce
  from get_parents_spec [of "''S''" example_AB ?cs 0 "''S''"] nc example_AB_calls
  have 3: "get_parents ''S'' example_AB = Inr []" by blast
  from 1 2 3 show ?thesis by blast
qed



section \<open>Termination of remove on acyclic tables\<close>

lemma child_rel_parent_update:
  assumes cn: "g c = Some cn"
  shows "child_rel (g(c \<mapsto> cn\<lparr>parent_ids := P\<rparr>)) = child_rel g"
proof -
  let ?g = "g(c \<mapsto> cn\<lparr>parent_ids := P\<rparr>)"
  have "(\<exists>qn h. ?g q = Some qn \<and> h \<in> children_virus_ptrs qn \<and> snd h = x)
        \<longleftrightarrow> (\<exists>qn h. g q = Some qn \<and> h \<in> children_virus_ptrs qn \<and> snd h = x)" for q x
    using cn by (cases "q = c") auto
  then show ?thesis unfolding child_rel_def by simp
qed

lemma finite_child_rel:
  assumes "finite_sets g"
  shows "finite (child_rel g)"
proof -
  let ?H = "\<Union>p \<in> dom g. \<Union>h \<in> children_virus_ptrs (the (g p)). {(p, snd h)}"
  have "child_rel g \<subseteq> ?H"
  proof
    fix e assume e: "e \<in> child_rel g"
    obtain p x where px: "e = (p, x)" by (cases e)
    with e have "(p, x) \<in> child_rel g" by simp
    then obtain pn h where "g p = Some pn" "h \<in> children_virus_ptrs pn" "snd h = x"
      unfolding child_rel_iff by blast
    then show "e \<in> ?H" using px by force
  qed
  moreover have "finite ?H"
    using assms by (auto simp: finite_sets_def)
  ultimately show ?thesis by (rule finite_subset)
qed

text \<open>
  The loop over the children returns for every large enough bound, if each recursive call
  does so on every table whose edges are among those of \<open>R\<close>.
\<close>

lemma remove_children_returns:
  assumes rec: "\<And>c g1. c \<in> snd ` set cs \<Longrightarrow> child_rel g1 \<subseteq> R \<Longrightarrow>
                 \<exists>n r. \<forall>m \<ge> n. remove_fuel m F stem c g1 = Some r"
  shows "child_rel g \<subseteq> R \<Longrightarrow>
         \<exists>n r. \<forall>m \<ge> n. remove_children (remove_fuel m F stem) F v cs g = Some r"
  using rec
proof (induction cs arbitrary: g)
  case Nil
  then show ?case by simp
next
  case (Cons c cs)
  have recs: "\<And>c' g1. c' \<in> snd ` set cs \<Longrightarrow> child_rel g1 \<subseteq> R \<Longrightarrow>
                 \<exists>n r. \<forall>m \<ge> n. remove_fuel m F stem c' g1 = Some r"
    using Cons.prems(2) by simp
  note IH = Cons.IH[OF _ recs]
  show ?case
  proof (cases "Get_Id_Fails v (snd c) \<in> F")
  case True
    then have "\<forall>m \<ge> 0. remove_children (remove_fuel m F stem) F v (c # cs) g
                 = Some (Throws BadAlloc g)"
      by (simp add: remove_children_get_id_fails)
    then show ?thesis by blast
  next
  case nf: False
  show ?thesis
  proof (cases "g (snd c)")
    case None
    then have "\<forall>m \<ge> 0. remove_children (remove_fuel m F stem) F v (c # cs) g = Some Undefined"
      using nf by (simp add: remove_children_absent)
    then show ?thesis by blast
  next
    case (Some cn)
    let ?g1 = "g(snd c \<mapsto> cn\<lparr>parent_ids := parent_ids cn - {v}\<rparr>)"
    have r1: "child_rel ?g1 \<subseteq> R"
      using Cons.prems(1) child_rel_parent_update[of g "snd c" cn] Some by simp
    show ?thesis
    proof (cases "parent_ids cn - {v} = {}")
      case False
      from IH[OF r1] obtain n r where
        "\<forall>m \<ge> n. remove_children (remove_fuel m F stem) F v cs ?g1 = Some r" by blast
      then have "\<forall>m \<ge> n. remove_children (remove_fuel m F stem) F v (c # cs) g = Some r"
        using remove_children_keep[where g=g and c=c and v=v, OF nf Some False] by simp
      then show ?thesis by blast
    next
      case True
      have "\<exists>n r. \<forall>m \<ge> n. remove_fuel m F stem (snd c) ?g1 = Some r"
      proof (rule Cons.prems(2))
        show "snd c \<in> snd ` set (c # cs)" by simp
        show "child_rel ?g1 \<subseteq> R" by (rule r1)
      qed
      then obtain n1 res where
        n1: "\<forall>m \<ge> n1. remove_fuel m F stem (snd c) ?g1 = Some res" by blast
      show ?thesis
      proof (cases res)
        case (Returns g2)
        show ?thesis
        proof (cases "g2 v = None")
          case gone: True
          have "\<forall>m \<ge> n1. remove_children (remove_fuel m F stem) F v (c # cs) g = Some Undefined"
          proof (intro allI impI)
            fix m assume "n1 \<le> m"
            with n1 Returns have "remove_fuel m F stem (snd c) ?g1 = Some (Returns g2)" by simp
            from remove_children_rec_Returns[where g=g and c=c and v=v and rec="remove_fuel m F stem",
                  OF nf Some True this] gone
            show "remove_children (remove_fuel m F stem) F v (c # cs) g = Some Undefined" by simp
          qed
          then show ?thesis by blast
        next
          case there: False
          have "remove_fuel n1 F stem (snd c) ?g1 = Some (Returns g2)" using n1 Returns by simp
          from remove_fuel_shrinks[OF this] have "shrinks stem ?g1 g2" by simp
          from child_rel_shrinks[OF this] r1 have "child_rel g2 \<subseteq> R" by blast
          from IH[OF this] obtain n2 r where
            n2: "\<forall>m \<ge> n2. remove_children (remove_fuel m F stem) F v cs g2 = Some r" by blast
          have "\<forall>m \<ge> max n1 n2. remove_children (remove_fuel m F stem) F v (c # cs) g = Some r"
          proof (intro allI impI)
            fix m assume m: "max n1 n2 \<le> m"
            with n1 Returns have "remove_fuel m F stem (snd c) ?g1 = Some (Returns g2)" by simp
            from remove_children_rec_Returns[where g=g and c=c and v=v and rec="remove_fuel m F stem",
                  OF nf Some True this] there n2 m
            show "remove_children (remove_fuel m F stem) F v (c # cs) g = Some r" by simp
          qed
          then show ?thesis by blast
        qed
      next
        case (Throws e g2)
        let ?r = "case g2 (snd c) of
                    None \<Rightarrow> Some Undefined
                  | Some cn2 \<Rightarrow>
                      if Reinsert_Fails v (snd c) \<in> F then Some (Throws BadAlloc g2)
                      else Some (Throws e
                             (g2(snd c \<mapsto> cn2\<lparr>parent_ids := insert v (parent_ids cn2)\<rparr>)))"
        have "\<forall>m \<ge> n1. remove_children (remove_fuel m F stem) F v (c # cs) g = ?r"
        proof (intro allI impI)
          fix m assume "n1 \<le> m"
          with n1 Throws have "remove_fuel m F stem (snd c) ?g1 = Some (Throws e g2)" by simp
          from remove_children_rec_Throws[where g=g and c=c and v=v and rec="remove_fuel m F stem",
                OF nf Some True this]
          show "remove_children (remove_fuel m F stem) F v (c # cs) g = ?r" .
        qed
        moreover have "\<exists>r. ?r = Some r" by (cases "g2 (snd c)") auto
        then obtain r where "?r = Some r" by blast
        ultimately show ?thesis by auto
      next
        case Undefined
        have "\<forall>m \<ge> n1. remove_children (remove_fuel m F stem) F v (c # cs) g = Some Undefined"
        proof (intro allI impI)
          fix m assume "n1 \<le> m"
          with n1 Undefined have "remove_fuel m F stem (snd c) ?g1 = Some Undefined" by simp
          from remove_children_rec_Undefined[where g=g and c=c and v=v and rec="remove_fuel m F stem",
                OF nf Some True this]
          show "remove_children (remove_fuel m F stem) F v (c # cs) g = Some Undefined" .
        qed
        then show ?thesis by blast
      qed
    qed
  qed
  qed
qed

lemma remove_fuel_returns:
  assumes wf: "wf (R\<inverse>)"
  shows "child_rel g \<subseteq> R \<Longrightarrow> \<exists>n r. \<forall>m \<ge> n. remove_fuel m F stem v g = Some r"
  using wf
proof (induction v arbitrary: g rule: wf_induct_rule)
  case (less v)
  have suc: "\<exists>k. m = Suc k \<and> n \<le> k" if "Suc n \<le> m" for m n
    using that by (cases m) auto
  show ?case
  proof (cases "v = stem")
    case True
    have "\<forall>m \<ge> Suc 0. remove_fuel m F stem v g = Some (Throws TriedToRemoveStemVirus g)"
    proof (intro allI impI)
      fix m assume "Suc 0 \<le> m"
      from suc[OF this] obtain k where "m = Suc k" by blast
      then show "remove_fuel m F stem v g = Some (Throws TriedToRemoveStemVirus g)"
        using True by (simp add: remove_fuel_stem)
    qed
    then show ?thesis by blast
  next
    case vs: False
    show ?thesis
    proof (cases "g v")
      case None
      have "\<forall>m \<ge> Suc 0. remove_fuel m F stem v g = Some (Throws VirusNotFound g)"
      proof (intro allI impI)
        fix m assume "Suc 0 \<le> m"
        from suc[OF this] obtain k where "m = Suc k" by blast
        then show "remove_fuel m F stem v g = Some (Throws VirusNotFound g)"
          using vs None by (simp add: remove_fuel_absent)
      qed
      then show ?thesis by blast
    next
      case (Some nd)
      show ?thesis
      proof (cases "sorted_list_of_set (parent_ids nd) \<noteq> [] \<and> Parent_Its_Fails v \<in> F")
      case True
      have "\<forall>m \<ge> Suc 0. remove_fuel m F stem v g = Some (Throws BadAlloc g)"
      proof (intro allI impI)
        fix m assume "Suc 0 \<le> m"
        from suc[OF this] obtain k where "m = Suc k" by blast
        then show "remove_fuel m F stem v g = Some (Throws BadAlloc g)"
          using remove_fuel_parent_its_fails[where g=g and v=v and F=F and n=k, OF vs Some] True
          by simp
      qed
      then show ?thesis by blast
      next
      case False
      then have nopf: "sorted_list_of_set (parent_ids nd) = [] \<or> Parent_Its_Fails v \<notin> F"
        by blast
      let ?cs = "sorted_list_of_set (children_virus_ptrs nd)"
      have below: "(c, v) \<in> R\<inverse>" if "c \<in> snd ` set ?cs" for c
      proof -
        from that obtain h where "h \<in> children_virus_ptrs nd" "snd h = c"
          using set_sorted_list_of_set_subset[of "children_virus_ptrs nd"] by auto
        with child_relI[of g v nd h] Some have "(v, c) \<in> child_rel g" by simp
        with less.prems show ?thesis by auto
      qed
      have "\<exists>n r. \<forall>m \<ge> n. remove_children (remove_fuel m F stem) F v ?cs g = Some r"
        by (rule remove_children_returns[where R=R]) (use less.IH below less.prems in blast)+
      then obtain n1 r1 where
        n1: "\<forall>m \<ge> n1. remove_children (remove_fuel m F stem) F v ?cs g = Some r1" by blast
      let ?r = "case r1 of
                  Returns g1 \<Rightarrow>
                    (case erase_from_parents v (sorted_list_of_set (parent_ids nd)) g1 of
                       None \<Rightarrow> Undefined
                     | Some g2 \<Rightarrow> Returns (g2(v := None)))
                | Throws e g1 \<Rightarrow> Throws e g1
                | Undefined \<Rightarrow> Undefined"
      have "\<forall>m \<ge> Suc n1. remove_fuel m F stem v g = Some ?r"
      proof (intro allI impI)
        fix m assume "Suc n1 \<le> m"
        from suc[OF this] obtain k where k: "m = Suc k" "n1 \<le> k" by blast
        with n1 have "remove_children (remove_fuel k F stem) F v ?cs g = Some r1" by simp
        with remove_fuel_present[where g=g and v=v and n=k and stem=stem and F=F,
               OF vs Some nopf] k(1)
        show "remove_fuel m F stem v g = Some ?r"
          by (simp split: outcome.splits option.splits)
      qed
      then show ?thesis by blast
      qed
    qed
  qed
qed

lemma acyclic_by_rank:
  fixes f :: "'a \<Rightarrow> nat"
  assumes "\<And>p c. (p, c) \<in> r \<Longrightarrow> f p < f c"
  shows "acyclic r"
proof -
  have "r \<subseteq> measure f" using assms by auto
  with wf_acyclic[OF wf_measure] show ?thesis by (rule acyclic_subset)
qed

section \<open>Well-formed tables\<close>

lemma wf_edge:
  assumes "wf_table stem g0" and "(p, x) \<in> child_rel g0"
  shows "\<exists>pn xn. g0 p = Some pn \<and> g0 x = Some xn \<and> virus xn \<in> children_virus_ptrs pn \<and>
                 p \<in> parent_ids xn"
proof -
  from assms(2) obtain pn h where h: "g0 p = Some pn" "h \<in> children_virus_ptrs pn" "snd h = x"
    unfolding child_rel_iff by blast
  from assms(1) have "child_links g0" by (simp add: wf_table_def)
  with h(1,2) obtain xn where "g0 (snd h) = Some xn" "virus xn = h" "p \<in> parent_ids xn"
    unfolding child_links_def by blast
  with h show ?thesis by auto
qed

lemma wf_parent_edge:
  assumes "wf_table stem g0" and "g0 x = Some xn" and "p \<in> parent_ids xn"
  shows "(p, x) \<in> child_rel g0"
proof -
  from assms(1) have "I1 g0" "I4 g0" by (simp_all add: wf_table_def)
  with assms(2,3) obtain pn where pn: "g0 p = Some pn" "virus xn \<in> children_virus_ptrs pn"
    and x: "snd (virus xn) = x"
    unfolding I1_def I4_def by blast
  from child_relI[of g0 p pn "virus xn"] pn x show ?thesis by simp
qed

lemma wf_stem_no_parent:
  assumes "wf_table stem g0"
  shows "(p, stem) \<notin> child_rel g0"
proof
  assume "(p, stem) \<in> child_rel g0"
  from wf_edge[OF assms this] obtain sn where "g0 stem = Some sn" "p \<in> parent_ids sn" by blast
  moreover from assms have "I2 stem g0" by (simp add: wf_table_def)
  ultimately show False by (auto simp: I2_def)
qed

lemma wf_no_cycle:
  assumes "wf_table stem g0" and "(a, b) \<in> (child_rel g0)\<^sup>+" and "(b, a) \<in> (child_rel g0)\<^sup>*"
  shows False
proof -
  from assms(2,3) have "(a, a) \<in> (child_rel g0)\<^sup>+" by (rule trancl_rtrancl_trancl)
  moreover from assms(1) have "acyclic (child_rel g0)" by (simp add: wf_table_def I5_def)
  ultimately show False by (simp add: acyclic_def)
qed

lemma wf_handle:
  assumes "wf_table stem g0" and "g0 p = Some pn" and "h \<in> children_virus_ptrs pn"
  shows "\<exists>xn. g0 (snd h) = Some xn \<and> virus xn = h"
proof -
  from assms(1) have "child_links g0" by (simp add: wf_table_def)
  with assms(2,3) show ?thesis unfolding child_links_def by blast
qed

lemma wf_handle_inj:
  assumes "wf_table stem g0" and "g0 p = Some pn"
    and "h \<in> children_virus_ptrs pn" and "k \<in> children_virus_ptrs pn" and "snd h = snd k"
  shows "h = k"
proof -
  from wf_handle[OF assms(1,2,3)] obtain xn where 1: "g0 (snd h) = Some xn" "virus xn = h" by blast
  from wf_handle[OF assms(1,2,4)] obtain yn where 2: "g0 (snd k) = Some yn" "virus yn = k" by blast
  from 1 2 assms(5) show ?thesis by simp
qed

section \<open>The states in the middle of a cascade: basic facts\<close>

lemma liveI: "g x = Some xn \<Longrightarrow> p \<in> parent_ids xn \<Longrightarrow> live g p x"
  unfolding live_def by blast

lemma liveE: "live g p x \<Longrightarrow> (\<And>xn. g x = Some xn \<Longrightarrow> p \<in> parent_ids xn \<Longrightarrow> Q) \<Longrightarrow> Q"
  unfolding live_def by blast

lemma cascade_inv_node:
  "cascade_inv stem g0 T g \<Longrightarrow> g x = Some nd \<Longrightarrow>
   \<exists>n0. g0 x = Some n0 \<and> virus nd = virus n0 \<and>
        children_virus_ptrs nd = children_virus_ptrs n0 \<and> parent_ids nd \<subseteq> parent_ids n0"
  unfolding cascade_inv_def by blast

lemma cascade_inv_live:
  "cascade_inv stem g0 T g \<Longrightarrow> g p \<noteq> None \<Longrightarrow> p \<notin> T \<Longrightarrow> (p, x) \<in> child_rel g0 \<Longrightarrow> live g p x"
  unfolding cascade_inv_def by blast

lemma cascade_inv_parent:
  "cascade_inv stem g0 T g \<Longrightarrow> live g p x \<Longrightarrow> g p \<noteq> None"
  unfolding cascade_inv_def by blast

lemma cascade_inv_orphan:
  "cascade_inv stem g0 T g \<Longrightarrow> g x = Some nd \<Longrightarrow> x \<notin> T \<Longrightarrow> x \<noteq> stem \<Longrightarrow> parent_ids nd \<noteq> {}"
  unfolding cascade_inv_def by blast

lemma cascade_inv_erased:
  "cascade_inv stem g0 T g \<Longrightarrow> g0 r \<noteq> None \<Longrightarrow> g r = None \<Longrightarrow> (p, r) \<in> child_rel g0 \<Longrightarrow>
   g p = None \<or> p \<in> T"
  unfolding cascade_inv_def by blast

lemma cascade_invI:
  assumes "\<And>x nd. g x = Some nd \<Longrightarrow>
             \<exists>n0. g0 x = Some n0 \<and> virus nd = virus n0 \<and>
                  children_virus_ptrs nd = children_virus_ptrs n0 \<and> parent_ids nd \<subseteq> parent_ids n0"
    and "\<And>p x. g p \<noteq> None \<Longrightarrow> p \<notin> T \<Longrightarrow> (p, x) \<in> child_rel g0 \<Longrightarrow> live g p x"
    and "\<And>p x. live g p x \<Longrightarrow> g p \<noteq> None"
    and "\<And>x nd. g x = Some nd \<Longrightarrow> x \<notin> T \<Longrightarrow> x \<noteq> stem \<Longrightarrow> parent_ids nd \<noteq> {}"
    and "\<And>r p. g0 r \<noteq> None \<Longrightarrow> g r = None \<Longrightarrow> (p, r) \<in> child_rel g0 \<Longrightarrow> g p = None \<or> p \<in> T"
  shows "cascade_inv stem g0 T g"
  unfolding cascade_inv_def using assms by blast

text \<open>A live edge is an edge of the table the cascade started on.\<close>

lemma cascade_live_edge:
  assumes "wf_table stem g0" and "cascade_inv stem g0 T g" and "live g p x"
  shows "(p, x) \<in> child_rel g0"
proof -
  from assms(3) obtain xn where xn: "g x = Some xn" "p \<in> parent_ids xn" by (rule liveE)
  from cascade_inv_node[OF assms(2) xn(1)] xn(2) obtain n0 where
    "g0 x = Some n0" "p \<in> parent_ids n0" by blast
  then show ?thesis by (rule wf_parent_edge[OF assms(1)])
qed

text \<open>A well-formed table is a cascade state of itself.\<close>

lemma cascade_inv_start:
  assumes wf: "wf_table stem g0"
  shows "cascade_inv stem g0 T g0"
proof (rule cascade_invI)
  fix x nd assume "g0 x = Some nd"
  then show "\<exists>n0. g0 x = Some n0 \<and> virus nd = virus n0 \<and>
                  children_virus_ptrs nd = children_virus_ptrs n0 \<and> parent_ids nd \<subseteq> parent_ids n0"
    by simp
next
  fix p x assume "(p, x) \<in> child_rel g0"
  from wf_edge[OF wf this] show "live g0 p x" unfolding live_def by blast
next
  fix p x assume "live g0 p x"
  then obtain xn where "g0 x = Some xn" "p \<in> parent_ids xn" by (rule liveE)
  from wf_edge[OF wf wf_parent_edge[OF wf this]] show "g0 p \<noteq> None" by auto
next
  fix x nd assume "g0 x = Some nd" "x \<noteq> stem"
  moreover from wf have "I3 stem g0" by (simp add: wf_table_def)
  ultimately show "parent_ids nd \<noteq> {}" unfolding I3_def by blast
next
  fix r p assume "g0 r \<noteq> None" "g0 r = None"
  then show "g0 p = None \<or> p \<in> T" by simp
qed

text \<open>Once the loop of a node is over and the node erased, it leaves \<open>T\<close>.\<close>

lemma cascade_inv_drop:
  assumes inv: "cascade_inv stem g0 (insert c T) g" and gone: "g c = None"
  shows "cascade_inv stem g0 T g"
proof (rule cascade_invI)
  fix x nd assume "g x = Some nd"
  then show "\<exists>n0. g0 x = Some n0 \<and> virus nd = virus n0 \<and>
                  children_virus_ptrs nd = children_virus_ptrs n0 \<and> parent_ids nd \<subseteq> parent_ids n0"
    by (rule cascade_inv_node[OF inv])
next
  fix p x assume p: "g p \<noteq> None" "p \<notin> T" "(p, x) \<in> child_rel g0"
  with gone have "p \<notin> insert c T" by auto
  with p show "live g p x" using cascade_inv_live[OF inv] by blast
next
  fix p x assume "live g p x"
  then show "g p \<noteq> None" by (rule cascade_inv_parent[OF inv])
next
  fix x nd assume x: "g x = Some nd" "x \<notin> T" "x \<noteq> stem"
  with gone have "x \<notin> insert c T" by auto
  with x show "parent_ids nd \<noteq> {}" using cascade_inv_orphan[OF inv] by blast
next
  fix r p assume "g0 r \<noteq> None" "g r = None" "(p, r) \<in> child_rel g0"
  from cascade_inv_erased[OF inv this] gone show "g p = None \<or> p \<in> T" by auto
qed

lemma cascade_inv_grow:
  assumes inv: "cascade_inv stem g0 T g"
  shows "cascade_inv stem g0 (insert c T) g"
proof (rule cascade_invI)
  fix x nd assume "g x = Some nd"
  then show "\<exists>n0. g0 x = Some n0 \<and> virus nd = virus n0 \<and>
                  children_virus_ptrs nd = children_virus_ptrs n0 \<and> parent_ids nd \<subseteq> parent_ids n0"
    by (rule cascade_inv_node[OF inv])
next
  fix p x assume "g p \<noteq> None" "p \<notin> insert c T" "(p, x) \<in> child_rel g0"
  then show "live g p x" using cascade_inv_live[OF inv] by blast
next
  fix p x assume "live g p x"
  then show "g p \<noteq> None" by (rule cascade_inv_parent[OF inv])
next
  fix x nd assume "g x = Some nd" "x \<notin> insert c T" "x \<noteq> stem"
  then show "parent_ids nd \<noteq> {}" using cascade_inv_orphan[OF inv] by blast
next
  fix r p assume "g0 r \<noteq> None" "g r = None" "(p, r) \<in> child_rel g0"
  from cascade_inv_erased[OF inv this] show "g p = None \<or> p \<in> insert c T" by auto
qed

section \<open>Frames\<close>

lemma frame_refl: "frame R v g g"
  unfolding frame_def by auto

lemma frameI:
  assumes "\<And>x nd. g x = Some nd \<Longrightarrow> g' x = None \<Longrightarrow>
             (v, x) \<in> R\<^sup>* \<and> (\<forall>p \<in> parent_ids nd. (v, p) \<in> R\<^sup>*)"
    and "\<And>x nd nd'. g x = Some nd \<Longrightarrow> g' x = Some nd' \<Longrightarrow>
             parent_ids nd' \<subseteq> parent_ids nd \<and>
             (\<forall>p \<in> parent_ids nd. (v, p) \<notin> R\<^sup>* \<longrightarrow> p \<in> parent_ids nd')"
    and "\<And>x. g x = None \<Longrightarrow> g' x = None"
  shows "frame R v g g'"
  unfolding frame_def using assms by blast

lemma frame_erased:
  "frame R v g g' \<Longrightarrow> g x = Some nd \<Longrightarrow> g' x = None \<Longrightarrow>
   (v, x) \<in> R\<^sup>* \<and> (\<forall>p \<in> parent_ids nd. (v, p) \<in> R\<^sup>*)"
  unfolding frame_def by blast

lemma frame_kept:
  "frame R v g g' \<Longrightarrow> g x = Some nd \<Longrightarrow> g' x = Some nd' \<Longrightarrow>
   parent_ids nd' \<subseteq> parent_ids nd \<and> (\<forall>p \<in> parent_ids nd. (v, p) \<notin> R\<^sup>* \<longrightarrow> p \<in> parent_ids nd')"
  unfolding frame_def by blast

lemma frame_absent: "frame R v g g' \<Longrightarrow> g x = None \<Longrightarrow> g' x = None"
  unfolding frame_def by blast

lemma frame_trans:
  assumes a: "frame R v g g1" and b: "frame R v g1 g2"
  shows "frame R v g g2"
proof (rule frameI)
  fix x nd assume x: "g x = Some nd" "g2 x = None"
  show "(v, x) \<in> R\<^sup>* \<and> (\<forall>p \<in> parent_ids nd. (v, p) \<in> R\<^sup>*)"
  proof (cases "g1 x")
    case None
    from frame_erased[OF a x(1) None] show ?thesis .
  next
    case (Some n1)
    from frame_erased[OF b Some x(2)] have 1: "(v, x) \<in> R\<^sup>*" "\<forall>p \<in> parent_ids n1. (v, p) \<in> R\<^sup>*"
      by simp_all
    from frame_kept[OF a x(1) Some] have 2: "\<forall>p \<in> parent_ids nd. (v, p) \<notin> R\<^sup>* \<longrightarrow> p \<in> parent_ids n1"
      by simp
    from 1 2 show ?thesis by blast
  qed
next
  fix x nd nd2 assume x: "g x = Some nd" "g2 x = Some nd2"
  have "g1 x \<noteq> None" using frame_absent[OF b, of x] x(2) by auto
  then obtain n1 where n1: "g1 x = Some n1" by auto
  from frame_kept[OF a x(1) n1] frame_kept[OF b n1 x(2)]
  show "parent_ids nd2 \<subseteq> parent_ids nd \<and>
        (\<forall>p \<in> parent_ids nd. (v, p) \<notin> R\<^sup>* \<longrightarrow> p \<in> parent_ids nd2)"
    by blast
next
  fix x assume "g x = None"
  from frame_absent[OF b frame_absent[OF a this]] show "g2 x = None" .
qed

text \<open>The frame of a child is a frame of the parent.\<close>

lemma frame_up:
  assumes f: "frame R c g g'" and e: "(v, c) \<in> R\<^sup>*"
  shows "frame R v g g'"
proof -
  have up: "(c, x) \<in> R\<^sup>* \<Longrightarrow> (v, x) \<in> R\<^sup>*" for x
    using e by (rule rtrancl_trans)
  show ?thesis
  proof (rule frameI)
    fix x nd assume "g x = Some nd" "g' x = None"
    from frame_erased[OF f this] up
    show "(v, x) \<in> R\<^sup>* \<and> (\<forall>p \<in> parent_ids nd. (v, p) \<in> R\<^sup>*)" by blast
  next
    fix x nd nd' assume "g x = Some nd" "g' x = Some nd'"
    from frame_kept[OF f this] up
    show "parent_ids nd' \<subseteq> parent_ids nd \<and>
          (\<forall>p \<in> parent_ids nd. (v, p) \<notin> R\<^sup>* \<longrightarrow> p \<in> parent_ids nd')" by blast
  next
    fix x assume "g x = None"
    from frame_absent[OF f this] show "g' x = None" .
  qed
qed

lemma frame_not_live:
  assumes f: "frame R v g g'" and n: "\<not> live g p x"
  shows "\<not> live g' p x"
proof
  assume "live g' p x"
  then obtain xn' where x': "g' x = Some xn'" "p \<in> parent_ids xn'" by (rule liveE)
  have "g x \<noteq> None" using frame_absent[OF f, of x] x'(1) by auto
  then obtain xn where xn: "g x = Some xn" by auto
  from frame_kept[OF f xn x'(1)] x'(2) have "p \<in> parent_ids xn" by blast
  with xn n show False by (auto simp: live_def)
qed

lemma frame_live:
  assumes f: "frame R v g g'" and l: "live g p x" and p: "(v, p) \<notin> R\<^sup>*"
  shows "live g' p x"
proof -
  from l obtain xn where xn: "g x = Some xn" "p \<in> parent_ids xn" by (rule liveE)
  show ?thesis
  proof (cases "g' x")
    case None
    from frame_erased[OF f xn(1) None] xn(2) p show ?thesis by blast
  next
    case (Some xn')
    from frame_kept[OF f xn(1) Some] xn(2) p have "p \<in> parent_ids xn'" by blast
    with Some show ?thesis by (rule liveI)
  qed
qed

lemma frame_stays:
  assumes f: "frame R v g g'" and x: "g x \<noteq> None" and n: "(v, x) \<notin> R\<^sup>*"
  shows "g' x \<noteq> None"
proof
  assume g': "g' x = None"
  from x obtain nd where "g x = Some nd" by auto
  from frame_erased[OF f this g'] n show False by simp
qed

lemma frame_parent_erase:
  assumes cn: "g c = Some cn"
  shows "frame R v g (g(c \<mapsto> cn\<lparr>parent_ids := parent_ids cn - {v}\<rparr>))"
proof (rule frameI)
  fix x nd assume "g x = Some nd" "(g(c \<mapsto> cn\<lparr>parent_ids := parent_ids cn - {v}\<rparr>)) x = None"
  then show "(v, x) \<in> R\<^sup>* \<and> (\<forall>p \<in> parent_ids nd. (v, p) \<in> R\<^sup>*)"
    by (cases "x = c") simp_all
next
  fix x nd nd'
  assume x: "g x = Some nd" "(g(c \<mapsto> cn\<lparr>parent_ids := parent_ids cn - {v}\<rparr>)) x = Some nd'"
  show "parent_ids nd' \<subseteq> parent_ids nd \<and>
        (\<forall>p \<in> parent_ids nd. (v, p) \<notin> R\<^sup>* \<longrightarrow> p \<in> parent_ids nd')"
  proof (cases "x = c")
    case True
    with x cn have "nd = cn" "nd' = cn\<lparr>parent_ids := parent_ids cn - {v}\<rparr>" by simp_all
    then show ?thesis by auto
  next
    case False
    with x have "nd' = nd" by simp
    then show ?thesis by simp
  qed
next
  fix x assume "g x = None"
  with cn show "(g(c \<mapsto> cn\<lparr>parent_ids := parent_ids cn - {v}\<rparr>)) x = None"
    by (cases "x = c") simp_all
qed

lemma frame_node_erase:
  assumes nd: "g c = Some nd" and np: "parent_ids nd = {}"
  shows "frame R c g (g(c := None))"
proof (rule frameI)
  fix x n assume "g x = Some n" "(g(c := None)) x = None"
  then have "x = c" by (cases "x = c") simp_all
  with \<open>g x = Some n\<close> nd np show "(c, x) \<in> R\<^sup>* \<and> (\<forall>p \<in> parent_ids n. (c, p) \<in> R\<^sup>*)"
    by simp
next
  fix x n n' assume "g x = Some n" "(g(c := None)) x = Some n'"
  then have "n' = n" by (cases "x = c") simp_all
  then show "parent_ids n' \<subseteq> parent_ids n \<and>
        (\<forall>p \<in> parent_ids n. (c, p) \<notin> R\<^sup>* \<longrightarrow> p \<in> parent_ids n')" by simp
next
  fix x assume "g x = None"
  then show "(g(c := None)) x = None" by simp
qed


text \<open>Putting a parent set back, as the handler of line 267 does, stays within the frame.\<close>

lemma frame_restore:
  assumes f: "frame R v g g2" and cn: "g c = Some cn" and cn2: "g2 c = Some cn2"
    and P1: "P \<subseteq> parent_ids cn" and P2: "parent_ids cn2 \<subseteq> P"
  shows "frame R v g (g2(c \<mapsto> cn2\<lparr>parent_ids := P\<rparr>))"
proof (rule frameI)
  fix x nd assume x: "g x = Some nd" "(g2(c \<mapsto> cn2\<lparr>parent_ids := P\<rparr>)) x = None"
  then have "g2 x = None" by (cases "x = c") simp_all
  from frame_erased[OF f x(1) this]
  show "(v, x) \<in> R\<^sup>* \<and> (\<forall>p \<in> parent_ids nd. (v, p) \<in> R\<^sup>*)" .
next
  fix x nd nd'
  assume x: "g x = Some nd" "(g2(c \<mapsto> cn2\<lparr>parent_ids := P\<rparr>)) x = Some nd'"
  show "parent_ids nd' \<subseteq> parent_ids nd \<and>
        (\<forall>p \<in> parent_ids nd. (v, p) \<notin> R\<^sup>* \<longrightarrow> p \<in> parent_ids nd')"
  proof (cases "x = c")
    case True
    with x cn have nd: "nd = cn" and nd': "nd' = cn2\<lparr>parent_ids := P\<rparr>" by simp_all
    from frame_kept[OF f cn cn2] P1 P2 show ?thesis unfolding nd nd' by auto
  next
    case False
    with x have "g2 x = Some nd'" by simp
    from frame_kept[OF f x(1) this] show ?thesis .
  qed
next
  fix x assume x: "g x = None"
  with cn have "x \<noteq> c" by auto
  with frame_absent[OF f x] show "(g2(c \<mapsto> cn2\<lparr>parent_ids := P\<rparr>)) x = None" by simp
qed

section \<open>The table a cascade leaves when it throws\<close>

lemma thrown_node:
  "thrown stem g0 T F g \<Longrightarrow> g x = Some nd \<Longrightarrow>
   \<exists>n0. g0 x = Some n0 \<and> virus nd = virus n0 \<and>
        children_virus_ptrs nd = children_virus_ptrs n0 \<and> parent_ids nd \<subseteq> parent_ids n0"
  unfolding thrown_def by blast

lemma thrown_parent: "thrown stem g0 T F g \<Longrightarrow> live g p x \<Longrightarrow> g p \<noteq> None"
  unfolding thrown_def by blast

lemma thrown_orphan:
  "thrown stem g0 T F g \<Longrightarrow> \<forall>a b. Reinsert_Fails a b \<notin> F \<Longrightarrow> g x = Some nd \<Longrightarrow> x \<notin> T \<Longrightarrow>
   x \<noteq> stem \<Longrightarrow> parent_ids nd \<noteq> {}"
  unfolding thrown_def by blast

lemma thrownI:
  assumes "\<And>x nd. g x = Some nd \<Longrightarrow>
             \<exists>n0. g0 x = Some n0 \<and> virus nd = virus n0 \<and>
                  children_virus_ptrs nd = children_virus_ptrs n0 \<and> parent_ids nd \<subseteq> parent_ids n0"
    and "\<And>p x. live g p x \<Longrightarrow> g p \<noteq> None"
    and "\<And>x nd. \<forall>a b. Reinsert_Fails a b \<notin> F \<Longrightarrow> g x = Some nd \<Longrightarrow> x \<notin> T \<Longrightarrow> x \<noteq> stem \<Longrightarrow>
           parent_ids nd \<noteq> {}"
  shows "thrown stem g0 T F g"
  unfolding thrown_def using assms by blast

lemma cascade_inv_thrown:
  assumes "cascade_inv stem g0 T g"
  shows "thrown stem g0 T F g"
proof (rule thrownI)
  fix x nd assume "g x = Some nd"
  then show "\<exists>n0. g0 x = Some n0 \<and> virus nd = virus n0 \<and>
                  children_virus_ptrs nd = children_virus_ptrs n0 \<and> parent_ids nd \<subseteq> parent_ids n0"
    by (rule cascade_inv_node[OF assms])
next
  fix p x assume "live g p x"
  then show "g p \<noteq> None" by (rule cascade_inv_parent[OF assms])
next
  fix x nd assume "g x = Some nd" "x \<notin> T" "x \<noteq> stem"
  then show "parent_ids nd \<noteq> {}" by (rule cascade_inv_orphan[OF assms])
qed

text \<open>The handler of the calling frame puts the parent back: the child leaves \<open>T\<close>.\<close>

lemma thrown_restore:
  assumes wf: "wf_table stem g0" and th: "thrown stem g0 (insert c T) F g2"
    and c2: "g2 c = Some cn2" and v2: "g2 v \<noteq> None" and e: "(v, c) \<in> child_rel g0"
  shows "thrown stem g0 T F (g2(c \<mapsto> cn2\<lparr>parent_ids := insert v (parent_ids cn2)\<rparr>))"
proof (rule thrownI)
  let ?g3 = "g2(c \<mapsto> cn2\<lparr>parent_ids := insert v (parent_ids cn2)\<rparr>)"
  have dom3: "g2 x \<noteq> None \<Longrightarrow> ?g3 x \<noteq> None" for x by simp
  {
    fix x nd assume x: "?g3 x = Some nd"
    show "\<exists>n0. g0 x = Some n0 \<and> virus nd = virus n0 \<and>
                  children_virus_ptrs nd = children_virus_ptrs n0 \<and> parent_ids nd \<subseteq> parent_ids n0"
    proof (cases "x = c")
      case True
      with x have nd: "nd = cn2\<lparr>parent_ids := insert v (parent_ids cn2)\<rparr>" by simp
      from thrown_node[OF th c2] obtain n0 where n0: "g0 c = Some n0" "virus cn2 = virus n0"
        "children_virus_ptrs cn2 = children_virus_ptrs n0" "parent_ids cn2 \<subseteq> parent_ids n0"
        by blast
      from wf_edge[OF wf e] n0(1) have "v \<in> parent_ids n0" by auto
      with n0 True show ?thesis unfolding nd by simp
    next
      case False
      with x have "g2 x = Some nd" by simp
      then show ?thesis by (rule thrown_node[OF th])
    qed
  next
    fix p x assume "live ?g3 p x"
    then obtain xn where xn: "?g3 x = Some xn" "p \<in> parent_ids xn" by (rule liveE)
    have "g2 p \<noteq> None"
    proof (cases "x = c")
      case True
      with xn have "p = v \<or> p \<in> parent_ids cn2" by auto
      then show ?thesis
      proof
        assume "p = v"
        with v2 show ?thesis by simp
      next
        assume "p \<in> parent_ids cn2"
        with c2 True have "live g2 p x" by (simp add: live_def)
        then show ?thesis by (rule thrown_parent[OF th])
      qed
    next
      case False
      with xn have "live g2 p x" by (simp add: live_def)
      then show ?thesis by (rule thrown_parent[OF th])
    qed
    then show "?g3 p \<noteq> None" by (rule dom3)
  next
    fix x nd
    assume nr: "\<forall>a b. Reinsert_Fails a b \<notin> F" and x: "?g3 x = Some nd" "x \<notin> T" "x \<noteq> stem"
    show "parent_ids nd \<noteq> {}"
    proof (cases "x = c")
      case True
      with x have "nd = cn2\<lparr>parent_ids := insert v (parent_ids cn2)\<rparr>" by simp
      then show ?thesis by simp
    next
      case False
      with x have "g2 x = Some nd" "x \<notin> insert c T" by simp_all
      from thrown_orphan[OF th nr this x(3)] show ?thesis .
    qed
  }
qed

text \<open>When the re-insertion fails, the child stays without parents.\<close>

lemma thrown_reinsert_fails:
  assumes "thrown stem g0 T' F g" and "Reinsert_Fails a b \<in> F"
  shows "thrown stem g0 T F g"
  using assms unfolding thrown_def by blast

section \<open>The loop over the children inside a cascade\<close>

lemma cascade_inv_parent_erase:
  assumes inv: "cascade_inv stem g0 T g" and cn: "g c = Some cn" and vT: "v \<in> T"
    and D: "c \<in> T \<or> c = stem \<or> parent_ids cn - {v} \<noteq> {}"
  shows "cascade_inv stem g0 T (g(c \<mapsto> cn\<lparr>parent_ids := parent_ids cn - {v}\<rparr>))"
proof (rule cascade_invI)
  let ?g1 = "g(c \<mapsto> cn\<lparr>parent_ids := parent_ids cn - {v}\<rparr>)"
  have dom1: "?g1 x \<noteq> None \<longleftrightarrow> g x \<noteq> None" for x
    using cn by (cases "x = c") simp_all
  have live1: "live ?g1 p x \<Longrightarrow> live g p x" for p x
  proof -
    assume "live ?g1 p x"
    then obtain xn where xn: "?g1 x = Some xn" "p \<in> parent_ids xn" by (rule liveE)
    show "live g p x"
    proof (cases "x = c")
      case True
      with xn have "p \<in> parent_ids cn" by auto
      with cn True show ?thesis by (simp add: live_def)
    next
      case False
      with xn show ?thesis by (simp add: live_def)
    qed
  qed
  {
    fix x nd assume x: "?g1 x = Some nd"
    show "\<exists>n0. g0 x = Some n0 \<and> virus nd = virus n0 \<and>
                  children_virus_ptrs nd = children_virus_ptrs n0 \<and> parent_ids nd \<subseteq> parent_ids n0"
    proof (cases "x = c")
      case True
      with x have nd: "nd = cn\<lparr>parent_ids := parent_ids cn - {v}\<rparr>" by simp
      from cascade_inv_node[OF inv cn] True nd show ?thesis by auto
    next
      case False
      with x have "g x = Some nd" by simp
      then show ?thesis by (rule cascade_inv_node[OF inv])
    qed
  next
    fix p x assume p: "?g1 p \<noteq> None" "p \<notin> T" "(p, x) \<in> child_rel g0"
    from p(1) have "g p \<noteq> None" using dom1[of p] by blast
    from cascade_inv_live[OF inv this p(2,3)] obtain xn where
      xn: "g x = Some xn" "p \<in> parent_ids xn" by (rule liveE)
    show "live ?g1 p x"
    proof (cases "x = c")
      case True
      with xn cn have "xn = cn" by simp
      moreover have "p \<noteq> v" using vT p(2) by auto
      ultimately have "p \<in> parent_ids (cn\<lparr>parent_ids := parent_ids cn - {v}\<rparr>)"
        using xn(2) by simp
      with True show ?thesis by (simp add: live_def)
    next
      case False
      with xn show ?thesis by (simp add: live_def)
    qed
  next
    fix p x assume "live ?g1 p x"
    from cascade_inv_parent[OF inv live1[OF this]] show "?g1 p \<noteq> None"
      using dom1[of p] by blast
  next
    fix x nd assume x: "?g1 x = Some nd" "x \<notin> T" "x \<noteq> stem"
    show "parent_ids nd \<noteq> {}"
    proof (cases "x = c")
      case True
      with x D have "nd = cn\<lparr>parent_ids := parent_ids cn - {v}\<rparr>" "parent_ids cn - {v} \<noteq> {}"
        by auto
      then show ?thesis by simp
    next
      case False
      with x have "g x = Some nd" by simp
      from cascade_inv_orphan[OF inv this x(2,3)] show ?thesis .
    qed
  next
    fix r p assume r: "g0 r \<noteq> None" "?g1 r = None" "(p, r) \<in> child_rel g0"
    from r(2) have "g r = None" using dom1[of r] by blast
    from cascade_inv_erased[OF inv r(1) this r(3)] show "?g1 p = None \<or> p \<in> T"
      using dom1[of p] by blast
  }
qed

lemma loop_post_step:
  assumes post: "loop_post stem F g0 T v cs g1 r" and f: "frame (child_rel g0) v g g1"
    and nl: "\<not> live g1 v (snd c)"
  shows "loop_post stem F g0 T v (c # cs) g r"
proof (cases r)
  case (Returns g')
  with post have p: "cascade_inv stem g0 T g'" "g' v \<noteq> None" "frame (child_rel g0) v g1 g'"
    "\<forall>h \<in> set cs. \<not> live g' v (snd h)" by simp_all
  have "frame (child_rel g0) v g g'" using f p(3) by (rule frame_trans)
  moreover have "\<forall>h \<in> set (c # cs). \<not> live g' v (snd h)"
    using p(4) frame_not_live[OF p(3) nl] by simp
  ultimately show ?thesis using Returns p(1,2) by simp
next
  case (Throws e g')
  with post have p: "e = BadAlloc" "get_id_fault F" "thrown stem g0 T F g'" "g' v \<noteq> None"
    "frame (child_rel g0) v g1 g'" by simp_all
  have "frame (child_rel g0) v g g'" using f p(5) by (rule frame_trans)
  with Throws p(1,2,3,4) show ?thesis by simp
next
  case Undefined
  with post show ?thesis by simp
qed

lemma cascade_loop:
  assumes wf: "wf_table stem g0"
    and spec: "\<And>x. (v, x) \<in> child_rel g0 \<Longrightarrow> cascade_spec stem F g0 x"
    and vT: "v \<in> T"
    and Tv: "\<forall>t \<in> T. (v, t) \<notin> (child_rel g0)\<^sup>+"
    and n0: "g0 v = Some n0"
  shows "cascade_inv stem g0 T g \<Longrightarrow> g v \<noteq> None \<Longrightarrow> distinct cs \<Longrightarrow>
         set cs \<subseteq> children_virus_ptrs n0 \<Longrightarrow> (\<forall>h \<in> set cs. live g v (snd h)) \<Longrightarrow>
         \<exists>n r. (\<forall>m \<ge> n. remove_children (remove_fuel m F stem) F v cs g = Some r) \<and>
                loop_post stem F g0 T v cs g r"
proof (induction cs arbitrary: g)
  case Nil
  have "\<forall>m \<ge> 0. remove_children (remove_fuel m F stem) F v [] g = Some (Returns g)" by simp
  moreover have "loop_post stem F g0 T v [] g (Returns g)"
    using Nil.prems(1,2) frame_refl[of "child_rel g0" v g] by simp
  ultimately show ?case by blast
next
  case (Cons c cs)
  let ?R = "child_rel g0"
  note inv = Cons.prems(1)
  show ?case
  proof (cases "Get_Id_Fails v (snd c) \<in> F")
    case True
    then have "\<forall>m \<ge> 0. remove_children (remove_fuel m F stem) F v (c # cs) g
                 = Some (Throws BadAlloc g)"
      by (simp add: remove_children_get_id_fails)
    moreover have "get_id_fault F" using True unfolding get_id_fault_def by blast
    then have "loop_post stem F g0 T v (c # cs) g (Throws BadAlloc g)"
      using cascade_inv_thrown[OF inv, of F] Cons.prems(2) frame_refl[of ?R v g] by simp
    ultimately show ?thesis by blast
  next
    case nf: False
    have cin: "c \<in> children_virus_ptrs n0" using Cons.prems(4) by simp
    have edge: "(v, snd c) \<in> ?R" using child_relI[of g0 v n0 c] n0 cin by simp
    have up: "(v, x) \<in> ?R\<^sup>+" if "(snd c, x) \<in> ?R\<^sup>*" for x
      using edge that by (rule rtrancl_into_trancl2)
    have nov: "(snd c, v) \<notin> ?R\<^sup>*"
    proof
      assume "(snd c, v) \<in> ?R\<^sup>*"
      from wf_no_cycle[OF wf up[OF this]] show False by simp
    qed
    have cv: "snd c \<noteq> v" using nov by auto
    have cT: "snd c \<notin> T" using Tv edge by auto
    have cstem: "snd c \<noteq> stem" using wf_stem_no_parent[OF wf, of v] edge by auto
    from Cons.prems(5) have "live g v (snd c)" by simp
    then obtain cn where cn: "g (snd c) = Some cn" and vcn: "v \<in> parent_ids cn" by (rule liveE)
    let ?g1 = "g(snd c \<mapsto> cn\<lparr>parent_ids := parent_ids cn - {v}\<rparr>)"
    have rest_ne: "snd h \<noteq> snd c" if "h \<in> set cs" for h
    proof
      assume "snd h = snd c"
      moreover have "h \<in> children_virus_ptrs n0" using that Cons.prems(4) by auto
      ultimately have "h = c" using wf_handle_inj[OF wf n0 _ cin] by blast
      with that Cons.prems(3) show False by simp
    qed
    have f1: "frame ?R v g ?g1" using cn by (rule frame_parent_erase)
    have l1: "\<forall>h \<in> set cs. live ?g1 v (snd h)"
    proof
      fix h assume h: "h \<in> set cs"
      with Cons.prems(5) have "live g v (snd h)" by simp
      with rest_ne[OF h] show "live ?g1 v (snd h)" by (simp add: live_def)
    qed
    have nl1: "\<not> live ?g1 v (snd c)" by (simp add: live_def)
    have v1: "?g1 v \<noteq> None" using Cons.prems(2) cv by simp
    have dist: "distinct cs" and sub: "set cs \<subseteq> children_virus_ptrs n0"
      using Cons.prems(3,4) by simp_all
    show ?thesis
    proof (cases "parent_ids cn - {v} = {}")
      case False
      have inv1: "cascade_inv stem g0 T ?g1"
        using inv cn vT False by (intro cascade_inv_parent_erase) simp_all
      from Cons.IH[OF inv1 v1 dist sub l1] obtain n r where
        run: "\<forall>m \<ge> n. remove_children (remove_fuel m F stem) F v cs ?g1 = Some r"
        and post: "loop_post stem F g0 T v cs ?g1 r"
        by blast
      have "\<forall>m \<ge> n. remove_children (remove_fuel m F stem) F v (c # cs) g = Some r"
        using run remove_children_keep[where g=g and c=c and v=v and F=F, OF nf cn False] by simp
      moreover have "loop_post stem F g0 T v (c # cs) g r"
        using post f1 nl1 by (rule loop_post_step)
      ultimately show ?thesis by blast
    next
      case True
      let ?T = "insert (snd c) T"
      let ?cn = "cn\<lparr>parent_ids := parent_ids cn - {v}\<rparr>"
      have inv1: "cascade_inv stem g0 ?T ?g1"
        using cascade_inv_grow[OF inv] cn vT by (intro cascade_inv_parent_erase) simp_all
      have out: "\<forall>x. (snd c, x) \<in> ?R \<longrightarrow> live ?g1 (snd c) x"
      proof (intro allI impI)
        fix x assume e: "(snd c, x) \<in> ?R"
        have "g (snd c) \<noteq> None" using cn by simp
        from cascade_inv_live[OF inv this cT e] have l: "live g (snd c) x" .
        have "x \<noteq> snd c"
        proof
          assume "x = snd c"
          with e have "(snd c, snd c) \<in> ?R\<^sup>+" by auto
          from wf_no_cycle[OF wf this] show False by simp
        qed
        with l show "live ?g1 (snd c) x" by (simp add: live_def)
      qed
      have anc: "\<forall>t \<in> ?T. (snd c, t) \<notin> ?R\<^sup>+"
      proof
        fix t assume t: "t \<in> ?T"
        show "(snd c, t) \<notin> ?R\<^sup>+"
        proof
          assume p: "(snd c, t) \<in> ?R\<^sup>+"
          show False
          proof (cases "t = snd c")
            case True
            with p wf_no_cycle[OF wf, of "snd c" "snd c"] show False by simp
          next
            case False
            with t have "t \<in> T" by simp
            moreover from p have "(snd c, t) \<in> ?R\<^sup>*" by simp
            ultimately show False using up Tv by blast
          qed
        qed
      qed
      have "cascade_spec stem F g0 (snd c)" using edge by (rule spec)
      then have "\<exists>n r. (\<forall>m \<ge> n. remove_fuel m F stem (snd c) ?g1 = Some r) \<and>
                   cascade_post stem F g0 ?T (snd c) ?g1 r"
        unfolding cascade_spec_def
      proof (elim allE[where x = ?T] allE[where x = ?g1] allE[where x = ?cn] impE)
        show "cascade_inv stem g0 ?T ?g1 \<and> snd c \<in> ?T \<and> ?g1 (snd c) = Some ?cn \<and> snd c \<noteq> stem \<and>
              parent_ids ?cn = {} \<and> (\<forall>x. (snd c, x) \<in> ?R \<longrightarrow> live ?g1 (snd c) x) \<and>
              (\<forall>t \<in> ?T. (snd c, t) \<notin> ?R\<^sup>+)"
        proof -
          have a1: "?g1 (snd c) = Some ?cn" by simp
          have a2: "parent_ids ?cn = {}" using True by simp
          have a3: "snd c \<in> ?T" by simp
          from inv1 a1 a2 a3 cstem out anc show ?thesis by blast
        qed
      qed
      then obtain n1 r1 where
        run1: "\<forall>m \<ge> n1. remove_fuel m F stem (snd c) ?g1 = Some r1"
        and post1: "cascade_post stem F g0 ?T (snd c) ?g1 r1"
        by blast
      show ?thesis
      proof (cases r1)
        case (Returns g2)
        with post1 have inv2': "cascade_inv stem g0 ?T g2" and gone: "g2 (snd c) = None"
          and fc: "frame ?R (snd c) ?g1 g2" by simp_all
        have inv2: "cascade_inv stem g0 T g2" using inv2' gone by (rule cascade_inv_drop)
        have f2: "frame ?R v ?g1 g2" by (rule frame_up[OF fc r_into_rtrancl[OF edge]])
        have v2: "g2 v \<noteq> None" using fc v1 nov by (rule frame_stays)
        have l2: "\<forall>h \<in> set cs. live g2 v (snd h)"
          using l1 frame_live[OF fc _ nov] by blast
        from Cons.IH[OF inv2 v2 dist sub l2] obtain n2 r where
          run2: "\<forall>m \<ge> n2. remove_children (remove_fuel m F stem) F v cs g2 = Some r"
          and post2: "loop_post stem F g0 T v cs g2 r"
          by blast
        have "\<forall>m \<ge> max n1 n2. remove_children (remove_fuel m F stem) F v (c # cs) g = Some r"
        proof (intro allI impI)
          fix m assume m: "max n1 n2 \<le> m"
          with run1 Returns have "remove_fuel m F stem (snd c) ?g1 = Some (Returns g2)" by simp
          from remove_children_rec_Returns[where g=g and c=c and v=v and F=F
                and rec="remove_fuel m F stem", OF nf cn True this] v2 run2 m
          show "remove_children (remove_fuel m F stem) F v (c # cs) g = Some r" by simp
        qed
        moreover have "loop_post stem F g0 T v (c # cs) g r"
        proof (rule loop_post_step[OF post2])
          show "frame ?R v g g2" using f1 f2 by (rule frame_trans)
          show "\<not> live g2 v (snd c)" using gone by (simp add: live_def)
        qed
        ultimately show ?thesis by blast
      next
        case (Throws e g2)
        with post1 have eb: "e = BadAlloc" and Fne: "get_id_fault F"
          and th2: "thrown stem g0 ?T F g2" and c2: "g2 (snd c) \<noteq> None"
          and fc: "frame ?R (snd c) ?g1 g2" by simp_all
        from c2 obtain cn2 where cn2: "g2 (snd c) = Some cn2" by auto
        have f2: "frame ?R v g g2"
          by (rule frame_trans[OF f1 frame_up[OF fc r_into_rtrancl[OF edge]]])
        have v2: "g2 v \<noteq> None" using fc v1 nov by (rule frame_stays)
        have step: "remove_children (remove_fuel m F stem) F v (c # cs) g
                      = (if Reinsert_Fails v (snd c) \<in> F then Some (Throws BadAlloc g2)
                         else Some (Throws e
                           (g2(snd c \<mapsto> cn2\<lparr>parent_ids := insert v (parent_ids cn2)\<rparr>))))"
          if m: "n1 \<le> m" for m
        proof -
          from run1 m Throws have "remove_fuel m F stem (snd c) ?g1 = Some (Throws e g2)" by simp
          from remove_children_rec_Throws[where g=g and c=c and v=v and F=F
                and rec="remove_fuel m F stem", OF nf cn True this] cn2
          show ?thesis by simp
        qed
        show ?thesis
        proof (cases "Reinsert_Fails v (snd c) \<in> F")
          case rf: True
          have "\<forall>m \<ge> n1. remove_children (remove_fuel m F stem) F v (c # cs) g
                  = Some (Throws BadAlloc g2)"
            using step rf by simp
          moreover have "loop_post stem F g0 T v (c # cs) g (Throws BadAlloc g2)"
            using Fne thrown_reinsert_fails[OF th2 rf] v2 f2 by simp
          ultimately show ?thesis by blast
        next
          case rf: False
          let ?g3 = "g2(snd c \<mapsto> cn2\<lparr>parent_ids := insert v (parent_ids cn2)\<rparr>)"
          have "\<forall>m \<ge> n1. remove_children (remove_fuel m F stem) F v (c # cs) g
                  = Some (Throws e ?g3)"
            using step rf by simp
          moreover have "loop_post stem F g0 T v (c # cs) g (Throws e ?g3)"
          proof -
            have "thrown stem g0 T F ?g3" using wf th2 cn2 v2 edge by (rule thrown_restore)
            moreover have "?g3 v \<noteq> None" using v2 by simp
            moreover have "frame ?R v g ?g3"
            proof (rule frame_restore[OF f2 cn cn2])
              from frame_kept[OF f2 cn cn2] vcn
              show "insert v (parent_ids cn2) \<subseteq> parent_ids cn" by auto
              show "parent_ids cn2 \<subseteq> insert v (parent_ids cn2)" by auto
            qed
            ultimately show ?thesis using eb Fne by simp
          qed
          ultimately show ?thesis by blast
        qed
      next
        case Undefined
        with post1 show ?thesis by simp
      qed
    qed
  qed
qed

section \<open>The recursive call inside a cascade\<close>

lemma cascade_inv_node_erase:
  assumes wf: "wf_table stem g0" and inv: "cascade_inv stem g0 T g1"
    and c1: "g1 c = Some nd1" and np1: "parent_ids nd1 = {}"
    and nl: "\<forall>x. (c, x) \<in> child_rel g0 \<longrightarrow> \<not> live g1 c x"
  shows "cascade_inv stem g0 T (g1(c := None))"
proof (rule cascade_invI)
  let ?g' = "g1(c := None)"
  have live': "live ?g' p x \<Longrightarrow> live g1 p x \<and> x \<noteq> c" for p x
    unfolding live_def by (cases "x = c") simp_all
  {
    fix x nd assume "?g' x = Some nd"
    then have "g1 x = Some nd" by (cases "x = c") simp_all
    then show "\<exists>n0. g0 x = Some n0 \<and> virus nd = virus n0 \<and>
                  children_virus_ptrs nd = children_virus_ptrs n0 \<and> parent_ids nd \<subseteq> parent_ids n0"
      by (rule cascade_inv_node[OF inv])
  next
    fix p x assume p: "?g' p \<noteq> None" "p \<notin> T" "(p, x) \<in> child_rel g0"
    from p(1) have "g1 p \<noteq> None" by (cases "p = c") simp_all
    from cascade_inv_live[OF inv this p(2,3)] have l: "live g1 p x" .
    have "x \<noteq> c"
    proof
      assume "x = c"
      with l c1 have "p \<in> parent_ids nd1" by (auto simp: live_def)
      with np1 show False by simp
    qed
    with l show "live ?g' p x" by (simp add: live_def)
  next
    fix p x assume "live ?g' p x"
    from live'[OF this] have l: "live g1 p x" by simp
    from cascade_inv_parent[OF inv l] have "g1 p \<noteq> None" .
    moreover have "p \<noteq> c"
    proof
      assume "p = c"
      with l cascade_live_edge[OF wf inv l] nl show False by blast
    qed
    ultimately show "?g' p \<noteq> None" by simp
  next
    fix x nd assume x: "?g' x = Some nd" "x \<notin> T" "x \<noteq> stem"
    from x(1) have "g1 x = Some nd" by (cases "x = c") simp_all
    from cascade_inv_orphan[OF inv this x(2,3)] show "parent_ids nd \<noteq> {}" .
  next
    fix r p assume r: "g0 r \<noteq> None" "?g' r = None" "(p, r) \<in> child_rel g0"
    show "?g' p = None \<or> p \<in> T"
    proof (cases "r = c")
      case False
      with r(2) have "g1 r = None" by simp
      from cascade_inv_erased[OF inv r(1) this r(3)] show ?thesis by auto
    next
      case True
      show ?thesis
      proof (rule ccontr)
        assume "\<not> (?g' p = None \<or> p \<in> T)"
        then have "g1 p \<noteq> None" "p \<notin> T" by (auto split: if_splits)
        from cascade_inv_live[OF inv this r(3)] True c1 have "p \<in> parent_ids nd1"
          by (auto simp: live_def)
        with np1 show False by simp
      qed
    qed
  }
qed

lemma wf_child_rel_converse:
  assumes "wf_table stem g0"
  shows "wf ((child_rel g0)\<inverse>)"
  using assms finite_child_rel[of g0]
  by (simp add: wf_table_def I5_def finite_acyclic_wf_converse)

lemma wf_child_rel:
  assumes "wf_table stem g0"
  shows "wf (child_rel g0)"
  using assms finite_child_rel[of g0]
  by (simp add: wf_table_def I5_def finite_acyclic_wf)

lemma Suc_le_D2: "Suc n \<le> m \<Longrightarrow> \<exists>k. m = Suc k \<and> n \<le> k"
  by (cases m) auto

lemma cascade_nested:
  assumes wf: "wf_table stem g0"
  shows "cascade_spec stem F g0 c"
  using wf_child_rel_converse[OF wf]
proof (induction c rule: wf_induct_rule)
  case (less c)
  let ?R = "child_rel g0"
  have spec: "cascade_spec stem F g0 x" if "(c, x) \<in> ?R" for x
    using less.IH that by simp
  show ?case
    unfolding cascade_spec_def
  proof (intro allI impI, elim conjE)
    fix T g nd
    assume inv: "cascade_inv stem g0 T g" and cT: "c \<in> T" and nd: "g c = Some nd"
      and cs: "c \<noteq> stem" and np: "parent_ids nd = {}"
      and out: "\<forall>x. (c, x) \<in> ?R \<longrightarrow> live g c x"
      and anc: "\<forall>t \<in> T. (c, t) \<notin> ?R\<^sup>+"
    from cascade_inv_node[OF inv nd] obtain n0 where n0: "g0 c = Some n0"
      and ch: "children_virus_ptrs nd = children_virus_ptrs n0" by blast
    have fin: "finite (children_virus_ptrs n0)"
      using wf n0 by (auto simp: wf_table_def finite_sets_def)
    let ?cs = "sorted_list_of_set (children_virus_ptrs nd)"
    have set_cs: "set ?cs = children_virus_ptrs n0" using fin ch by simp
    have dist: "distinct ?cs" by simp
    have gc: "g c \<noteq> None" using nd by simp
    have sub: "set ?cs \<subseteq> children_virus_ptrs n0" using set_cs by simp
    have nopf: "sorted_list_of_set (parent_ids nd) = [] \<or> Parent_Its_Fails c \<notin> F"
      using np by simp
    have lv: "\<forall>h \<in> set ?cs. live g c (snd h)"
    proof
      fix h assume "h \<in> set ?cs"
      with set_cs child_relI[of g0 c n0 h] n0 have "(c, snd h) \<in> ?R" by simp
      with out show "live g c (snd h)" by simp
    qed
    from cascade_loop[OF wf spec cT anc n0 inv gc dist sub lv] obtain n1 r1 where
      run: "\<forall>m \<ge> n1. remove_children (remove_fuel m F stem) F c ?cs g = Some r1"
      and post: "loop_post stem F g0 T c ?cs g r1"
      by blast
    note unf = remove_fuel_present[where g=g and v=c and stem=stem and F=F, OF cs nd nopf]
    show "\<exists>n r. (\<forall>m \<ge> n. remove_fuel m F stem c g = Some r) \<and> cascade_post stem F g0 T c g r"
    proof (cases r1)
      case (Returns g1)
      with post have inv1: "cascade_inv stem g0 T g1" and c1: "g1 c \<noteq> None"
        and f1: "frame ?R c g g1" and nl: "\<forall>h \<in> set ?cs. \<not> live g1 c (snd h)"
        by simp_all
      from c1 obtain nd1 where nd1: "g1 c = Some nd1" by auto
      have np1: "parent_ids nd1 = {}" using frame_kept[OF f1 nd nd1] np by simp
      have nl': "\<forall>x. (c, x) \<in> ?R \<longrightarrow> \<not> live g1 c x"
      proof (intro allI impI)
        fix x assume "(c, x) \<in> ?R"
        then obtain h where "h \<in> children_virus_ptrs n0" "snd h = x"
          using n0 unfolding child_rel_iff by auto
        with nl set_cs show "\<not> live g1 c x" by auto
      qed
      let ?g' = "g1(c := None)"
      have "\<forall>m \<ge> Suc n1. remove_fuel m F stem c g = Some (Returns ?g')"
      proof (intro allI impI)
        fix m assume "Suc n1 \<le> m"
        from Suc_le_D2[OF this] obtain k where k: "m = Suc k" "n1 \<le> k" by blast
        with run Returns have "remove_children (remove_fuel k F stem) F c ?cs g = Some (Returns g1)"
          by simp
        with unf[of k] k(1) np
        show "remove_fuel m F stem c g = Some (Returns ?g')" by simp
      qed
      moreover have "cascade_inv stem g0 T ?g'"
        using wf inv1 nd1 np1 nl' by (rule cascade_inv_node_erase)
      moreover have "frame ?R c g ?g'"
        using f1 frame_node_erase[of g1 c nd1 ?R, OF nd1 np1] by (rule frame_trans)
      ultimately have "(\<forall>m \<ge> Suc n1. remove_fuel m F stem c g = Some (Returns ?g')) \<and>
                       cascade_post stem F g0 T c g (Returns ?g')" by simp
      then show ?thesis by blast
    next
      case (Throws e g1)
      have "\<forall>m \<ge> Suc n1. remove_fuel m F stem c g = Some (Throws e g1)"
      proof (intro allI impI)
        fix m assume "Suc n1 \<le> m"
        from Suc_le_D2[OF this] obtain k where k: "m = Suc k" "n1 \<le> k" by blast
        with run Throws have "remove_children (remove_fuel k F stem) F c ?cs g = Some (Throws e g1)"
          by simp
        with unf[of k] k(1)
        show "remove_fuel m F stem c g = Some (Throws e g1)" by simp
      qed
      moreover have "cascade_post stem F g0 T c g (Throws e g1)"
        using post Throws by simp
      ultimately show ?thesis by blast
    next
      case Undefined
      with post show ?thesis by simp
    qed
  qed
qed

section \<open>What remove computes on a well-formed table\<close>

lemma erase_from_parents_eq:
  "g v = Some nd \<Longrightarrow> set ps \<subseteq> dom g \<Longrightarrow>
   erase_from_parents v ps g =
     Some (\<lambda>x. if x \<in> set ps
               then map_option
                      (\<lambda>pn. pn\<lparr>children_virus_ptrs := children_virus_ptrs pn - {virus nd}\<rparr>) (g x)
               else g x)"
proof (induction ps arbitrary: g nd)
  case Nil
  then show ?case by simp
next
  case (Cons p ps)
  from Cons.prems(2) obtain pn where pn: "g p = Some pn" by auto
  let ?g' = "g(p \<mapsto> pn\<lparr>children_virus_ptrs := children_virus_ptrs pn - {virus nd}\<rparr>)"
  obtain nd' where nd': "?g' v = Some nd'" and vnd': "virus nd' = virus nd"
    using Cons.prems(1) pn by (cases "v = p") auto
  have sub: "set ps \<subseteq> dom ?g'" using Cons.prems(2) by auto
  have step: "erase_from_parents v (p # ps) g = erase_from_parents v ps ?g'"
    using pn Cons.prems(1) by simp
  have eq: "(\<lambda>x. if x \<in> set ps
              then map_option
                     (\<lambda>pn. pn\<lparr>children_virus_ptrs := children_virus_ptrs pn - {virus nd'}\<rparr>) (?g' x)
              else ?g' x)
        = (\<lambda>x. if x \<in> set (p # ps)
               then map_option
                      (\<lambda>pn. pn\<lparr>children_virus_ptrs := children_virus_ptrs pn - {virus nd}\<rparr>) (g x)
               else g x)"
  proof (rule ext)
    fix x
    show "(if x \<in> set ps
           then map_option
                  (\<lambda>pn. pn\<lparr>children_virus_ptrs := children_virus_ptrs pn - {virus nd'}\<rparr>) (?g' x)
           else ?g' x)
          = (if x \<in> set (p # ps)
             then map_option
                    (\<lambda>pn. pn\<lparr>children_virus_ptrs := children_virus_ptrs pn - {virus nd}\<rparr>) (g x)
             else g x)"
      using pn vnd' by (cases "x = p") auto
  qed
  show ?case by (simp only: step Cons.IH[OF nd' sub] eq)
qed

text \<open>The root is a survivor, and survivors are in the table.\<close>

lemma stem_survives: "stem \<in> survivors stem v g"
  by (simp add: survivors_def)

lemma survivors_not_v:
  assumes "v \<noteq> stem"
  shows "v \<notin> survivors stem v g"
proof
  assume "v \<in> survivors stem v g"
  then have "(stem, v) \<in> (child_rel g \<inter> {(p, c). p \<noteq> v \<and> c \<noteq> v})\<^sup>*"
    by (simp add: survivors_def)
  then show False using assms by (cases rule: rtranclE) auto
qed

lemma survivors_step:
  "p \<in> survivors stem v g \<Longrightarrow> (p, x) \<in> child_rel g \<Longrightarrow> p \<noteq> v \<Longrightarrow> x \<noteq> v \<Longrightarrow>
   x \<in> survivors stem v g"
  unfolding survivors_def by (auto intro: rtrancl_into_rtrancl)

lemma survivors_parent:
  assumes "x \<in> survivors stem v g" and "x \<noteq> stem"
  shows "\<exists>p. p \<in> survivors stem v g \<and> (p, x) \<in> child_rel g \<and> p \<noteq> v \<and> x \<noteq> v"
proof -
  from assms(1) have "(stem, x) \<in> (child_rel g \<inter> {(p, c). p \<noteq> v \<and> c \<noteq> v})\<^sup>*"
    by (simp add: survivors_def)
  then show ?thesis using assms(2)
    by (cases rule: rtranclE) (auto simp: survivors_def)
qed

lemma stem_not_below:
  assumes wf: "wf_table stem g0" and "v \<noteq> stem"
  shows "(v, stem) \<notin> (child_rel g0)\<^sup>*"
proof
  assume "(v, stem) \<in> (child_rel g0)\<^sup>*"
  then show False using assms(2) wf_stem_no_parent[OF wf]
    by (cases rule: rtranclE) auto
qed

text \<open>
  When the loop over the children of \<open>v\<close> has returned, lines 273 to 276 leave the old
  table cut down to the survivors.
\<close>

lemma cascade_result:
  assumes wf: "wf_table stem g0" and vs: "v \<noteq> stem" and n0: "g0 v = Some n0"
    and inv1: "cascade_inv stem g0 {v} g1" and v1: "g1 v \<noteq> None"
    and f1: "frame (child_rel g0) v g0 g1"
    and nl0: "\<forall>h \<in> children_virus_ptrs n0. \<not> live g1 v (snd h)"
  shows "\<exists>g2. erase_from_parents v (sorted_list_of_set (parent_ids n0)) g1 = Some g2 \<and>
              g2(v := None) = restrict_table (survivors stem v g0) g0"
proof -
  let ?R = "child_rel g0"
  let ?S = "survivors stem v g0"
  have fin: "finite (children_virus_ptrs n0)" "finite (parent_ids n0)"
    using wf n0 by (auto simp: wf_table_def finite_sets_def)
  let ?cs = "sorted_list_of_set (children_virus_ptrs n0)"
  let ?ps = "sorted_list_of_set (parent_ids n0)"
  have set_cs: "set ?cs = children_virus_ptrs n0" and set_ps: "set ?ps = parent_ids n0"
    using fin by simp_all
  have nl: "\<forall>h \<in> set ?cs. \<not> live g1 v (snd h)" using nl0 set_cs by simp
  from v1 obtain nd1 where nd1: "g1 v = Some nd1" by auto
  from cascade_inv_node[OF inv1 nd1] n0 have vir: "virus nd1 = virus n0" by auto
  have nlv: "\<not> live g1 v x" for x
  proof
    assume l: "live g1 v x"
    from cascade_live_edge[OF wf inv1 l] obtain h where "h \<in> children_virus_ptrs n0" "snd h = x"
      using n0 unfolding child_rel_iff by auto
    with nl set_cs l show False by auto
  qed
  have ps_dom: "set ?ps \<subseteq> dom g1"
  proof
    fix p assume "p \<in> set ?ps"
    with set_ps have "p \<in> parent_ids n0" by simp
    from wf_parent_edge[OF wf n0 this] have e: "(p, v) \<in> ?R" .
    from wf_edge[OF wf e] have "g0 p \<noteq> None" by auto
    moreover have "(v, p) \<notin> ?R\<^sup>*"
    proof
      assume "(v, p) \<in> ?R\<^sup>*"
      with wf_no_cycle[OF wf, of p v] e show False by auto
    qed
    ultimately have "g1 p \<noteq> None" using f1 by (intro frame_stays[of ?R v g0 g1])
    then show "p \<in> dom g1" by auto
  qed
  let ?erase = "\<lambda>pn. pn\<lparr>children_virus_ptrs := children_virus_ptrs pn - {virus n0}\<rparr>"
  let ?g2 = "\<lambda>x. if x \<in> parent_ids n0 then map_option ?erase (g1 x) else g1 x"
  have er: "erase_from_parents v ?ps g1 = Some ?g2"
    using erase_from_parents_eq[where g=g1 and v=v, OF nd1 ps_dom] set_ps
    unfolding vir by simp
  let ?g' = "?g2(v := None)"
  have stem1: "g1 stem \<noteq> None"
  proof -
    from wf have "g0 stem \<noteq> None" by (auto simp: wf_table_def I2_def)
    with f1 show ?thesis using stem_not_below[OF wf vs] by (intro frame_stays[of ?R v g0 g1])
  qed
  have in_S: "g1 x \<noteq> None \<and> x \<noteq> v \<longrightarrow> x \<in> ?S" for x
    using wf_child_rel[OF wf]
  proof (induction x rule: wf_induct_rule)
    case (less x)
    show ?case
    proof (intro impI, elim conjE)
      assume x: "g1 x \<noteq> None" "x \<noteq> v"
      show "x \<in> ?S"
      proof (cases "x = stem")
        case True
        then show ?thesis by (simp add: stem_survives)
      next
        case False
        from x(1) obtain nd where nd: "g1 x = Some nd" by auto
        from cascade_inv_orphan[OF inv1 nd _ False] x(2) obtain p where p: "p \<in> parent_ids nd"
          by auto
        with nd have l: "live g1 p x" by (rule liveI)
        have e: "(p, x) \<in> ?R" using wf inv1 l by (rule cascade_live_edge)
        have pv: "p \<noteq> v" using l nlv by auto
        have "g1 p \<noteq> None" using inv1 l by (rule cascade_inv_parent)
        with less.IH[OF e] pv have "p \<in> ?S" by simp
        then show ?thesis using e pv x(2) by (rule survivors_step)
      qed
    qed
  qed
  have S_in: "x \<in> ?S \<Longrightarrow> g1 x \<noteq> None \<and> x \<noteq> v" for x
  proof -
    assume "x \<in> ?S"
    then have "(stem, x) \<in> (?R \<inter> {(p, c). p \<noteq> v \<and> c \<noteq> v})\<^sup>*" by (simp add: survivors_def)
    then show "g1 x \<noteq> None \<and> x \<noteq> v"
    proof (induction rule: rtrancl_induct)
      case base
      show ?case using stem1 vs by simp
    next
      case (step y z)
      from step.hyps(2) have e: "(y, z) \<in> ?R" and yz: "y \<noteq> v" "z \<noteq> v" by auto
      from wf_edge[OF wf e] have z0: "g0 z \<noteq> None" by auto
      have "g1 z \<noteq> None"
      proof
        assume "g1 z = None"
        from cascade_inv_erased[OF inv1 z0 this e] step.IH yz show False by auto
      qed
      with yz show ?case by simp
    qed
  qed
  have "?g' = restrict_table ?S g0"
  proof (rule ext)
    fix x
    show "?g' x = restrict_table ?S g0 x"
    proof (cases "x \<in> ?S")
      case False
      with in_S[of x] have "g1 x = None \<or> x = v" by auto
      then have "?g' x = None" by auto
      with False show ?thesis by (simp add: restrict_table_def)
    next
      case True
      from S_in[OF True] obtain nd where nd: "g1 x = Some nd" and xv: "x \<noteq> v" by auto
      from cascade_inv_node[OF inv1 nd] obtain nx where nx: "g0 x = Some nx"
        and vx: "virus nd = virus nx"
        and cx: "children_virus_ptrs nd = children_virus_ptrs nx"
        and px: "parent_ids nd \<subseteq> parent_ids nx" by blast
      have par: "parent_ids nd = parent_ids nx \<inter> ?S"
      proof (intro equalityI subsetI)
        fix p assume p: "p \<in> parent_ids nd"
        with nd have l: "live g1 p x" by (rule liveI)
        have "g1 p \<noteq> None" using inv1 l by (rule cascade_inv_parent)
        moreover have "p \<noteq> v" using l nlv by auto
        ultimately have "p \<in> ?S" using in_S[of p] by simp
        with p px show "p \<in> parent_ids nx \<inter> ?S" by auto
      next
        fix p assume "p \<in> parent_ids nx \<inter> ?S"
        then have p: "p \<in> parent_ids nx" "p \<in> ?S" by auto
        from S_in[OF p(2)] have p1: "g1 p \<noteq> None" "p \<notin> {v}" by auto
        from wf_parent_edge[OF wf nx p(1)] have "(p, x) \<in> ?R" .
        from cascade_inv_live[OF inv1 p1 this] nd show "p \<in> parent_ids nd"
          by (auto simp: live_def)
      qed
      have h_S: "snd h \<in> ?S \<longleftrightarrow> h \<noteq> virus n0" if h: "h \<in> children_virus_ptrs nx" for h
      proof -
        from child_relI[of g0 x nx h] nx h have e: "(x, snd h) \<in> ?R" by simp
        have "g1 x \<noteq> None" "x \<notin> {v}" using nd xv by auto
        from cascade_inv_live[OF inv1 this e] have g1h: "g1 (snd h) \<noteq> None"
          by (auto simp: live_def)
        from wf_handle[OF wf nx h] obtain hn where hn: "g0 (snd h) = Some hn" "virus hn = h"
          by blast
        have "snd h = v \<longleftrightarrow> h = virus n0"
        proof
          assume "snd h = v"
          with hn n0 show "h = virus n0" by simp
        next
          assume "h = virus n0"
          moreover from wf n0 have "snd (virus n0) = v" by (auto simp: wf_table_def I4_def)
          ultimately show "snd h = v" by simp
        qed
        moreover have "snd h \<in> ?S \<longleftrightarrow> snd h \<noteq> v"
          using in_S[of "snd h"] S_in[of "snd h"] g1h by blast
        ultimately show ?thesis by simp
      qed
      have chi: "children_virus_ptrs nx - {virus n0} = {h \<in> children_virus_ptrs nx. snd h \<in> ?S}"
        using h_S by blast
      have not_par: "virus n0 \<notin> children_virus_ptrs nx" if "x \<notin> parent_ids n0"
      proof
        assume "virus n0 \<in> children_virus_ptrs nx"
        from child_relI[of g0 x nx "virus n0"] nx this
        have "(x, snd (virus n0)) \<in> ?R" by simp
        moreover from wf n0 have "snd (virus n0) = v" by (auto simp: wf_table_def I4_def)
        ultimately have "(x, v) \<in> ?R" by simp
        from wf_edge[OF wf this] n0 that show False by auto
      qed
      have "?g' x = Some (nd\<lparr>children_virus_ptrs := children_virus_ptrs nx - {virus n0}\<rparr>)"
      proof (cases "x \<in> parent_ids n0")
        case True
        with xv nd cx show ?thesis by simp
      next
        case False
        from not_par[OF False] have "children_virus_ptrs nx - {virus n0} = children_virus_ptrs nx"
          by auto
        with False xv nd cx show ?thesis by simp
      qed
      moreover have "restrict_table ?S g0 x
            = Some (nx\<lparr>parent_ids := parent_ids nx \<inter> ?S,
                      children_virus_ptrs := {h \<in> children_virus_ptrs nx. snd h \<in> ?S}\<rparr>)"
        using True nx by (simp add: restrict_table_def)
      moreover have "nd\<lparr>children_virus_ptrs := children_virus_ptrs nx - {virus n0}\<rparr>
            = nx\<lparr>parent_ids := parent_ids nx \<inter> ?S,
                  children_virus_ptrs := {h \<in> children_virus_ptrs nx. snd h \<in> ?S}\<rparr>"
        using vx par chi by (intro node.equality) simp_all
      ultimately show ?thesis by simp
    qed
  qed
  with er show ?thesis by blast
qed

text \<open>
  What \<open>remove\<close> gives on a well-formed table for a node other than the root, whatever the
  faults: it returns the old table cut down to the survivors; or collecting the parents
  fails and it throws \<open>std::bad_alloc\<close> with the table unchanged; or obtaining the
  identifier of a child fails somewhere in the cascade and it throws \<open>std::bad_alloc\<close>. It
  never runs into undefined behaviour.
\<close>

lemma remove_table_outcome:
  assumes wf: "wf_table stem g0" and vs: "v \<noteq> stem" and n0: "g0 v = Some n0"
  shows "\<exists>n r. (\<forall>m \<ge> n. remove_fuel m F stem v g0 = Some r) \<and>
           (r = Returns (restrict_table (survivors stem v g0) g0) \<or>
            r = Throws BadAlloc g0 \<and> Parent_Its_Fails v \<in> F \<or>
            get_id_fault F \<and>
              (\<exists>g'. r = Throws BadAlloc g' \<and> thrown stem g0 {v} F g' \<and> g' v \<noteq> None \<and>
                    frame (child_rel g0) v g0 g'))"
proof (cases "sorted_list_of_set (parent_ids n0) \<noteq> [] \<and> Parent_Its_Fails v \<in> F")
  case True
  have "\<forall>m \<ge> Suc 0. remove_fuel m F stem v g0 = Some (Throws BadAlloc g0)"
  proof (intro allI impI)
    fix m assume "Suc 0 \<le> m"
    from Suc_le_D2[OF this] obtain k where "m = Suc k" by blast
    then show "remove_fuel m F stem v g0 = Some (Throws BadAlloc g0)"
      using remove_fuel_parent_its_fails[where g=g0 and v=v and F=F and n=k, OF vs n0] True
      by simp
  qed
  with True show ?thesis by blast
next
  case False
  then have nopf: "sorted_list_of_set (parent_ids n0) = [] \<or> Parent_Its_Fails v \<notin> F" by blast
  let ?R = "child_rel g0"
  let ?S = "survivors stem v g0"
  have inv0: "cascade_inv stem g0 {v} g0" using wf by (rule cascade_inv_start)
  have spec: "cascade_spec stem F g0 x" for x using wf by (rule cascade_nested)
  have anc: "\<forall>t \<in> {v}. (v, t) \<notin> ?R\<^sup>+" using wf_no_cycle[OF wf, of v v] by auto
  have fin: "finite (children_virus_ptrs n0)"
    using wf n0 by (auto simp: wf_table_def finite_sets_def)
  let ?cs = "sorted_list_of_set (children_virus_ptrs n0)"
  let ?ps = "sorted_list_of_set (parent_ids n0)"
  have set_cs: "set ?cs = children_virus_ptrs n0" using fin by simp
  have lv: "\<forall>h \<in> set ?cs. live g0 v (snd h)"
  proof
    fix h assume "h \<in> set ?cs"
    with set_cs child_relI[of g0 v n0 h] n0 have "(v, snd h) \<in> ?R" by simp
    from wf_edge[OF wf this] show "live g0 v (snd h)" by (auto simp: live_def)
  qed
  have "\<exists>n r. (\<forall>m \<ge> n. remove_children (remove_fuel m F stem) F v ?cs g0 = Some r) \<and>
                loop_post stem F g0 {v} v ?cs g0 r"
    using wf spec _ anc n0 inv0
  proof (rule cascade_loop)
    show "v \<in> {v}" by simp
    show "g0 v \<noteq> None" using n0 by simp
    show "distinct ?cs" by simp
    show "set ?cs \<subseteq> children_virus_ptrs n0" using set_cs by simp
    show "\<forall>h \<in> set ?cs. live g0 v (snd h)" by (rule lv)
  qed
  then obtain n1 r1 where
    run: "\<forall>m \<ge> n1. remove_children (remove_fuel m F stem) F v ?cs g0 = Some r1"
    and post: "loop_post stem F g0 {v} v ?cs g0 r1"
    by blast
  note unf = remove_fuel_present[where g=g0 and v=v and stem=stem and F=F, OF vs n0 nopf]
  show ?thesis
  proof (cases r1)
    case (Returns g1)
    with post have inv1: "cascade_inv stem g0 {v} g1" and v1: "g1 v \<noteq> None"
      and f1: "frame ?R v g0 g1" and nl: "\<forall>h \<in> children_virus_ptrs n0. \<not> live g1 v (snd h)"
      using set_cs by simp_all
    from cascade_result[OF wf vs n0 inv1 v1 f1 nl] obtain g2 where
      er: "erase_from_parents v ?ps g1 = Some g2" and eq: "g2(v := None) = restrict_table ?S g0"
      by blast
    have "\<forall>m \<ge> Suc n1. remove_fuel m F stem v g0 = Some (Returns (restrict_table ?S g0))"
    proof (intro allI impI)
      fix m assume "Suc n1 \<le> m"
      from Suc_le_D2[OF this] obtain k where k: "m = Suc k" "n1 \<le> k" by blast
      with run Returns have "remove_children (remove_fuel k F stem) F v ?cs g0 = Some (Returns g1)"
        by simp
      with unf[of k] k(1) er eq
      show "remove_fuel m F stem v g0 = Some (Returns (restrict_table ?S g0))" by simp
    qed
    then show ?thesis by blast
  next
    case (Throws e g1)
    with post have p: "e = BadAlloc" "get_id_fault F" "thrown stem g0 {v} F g1" "g1 v \<noteq> None"
      "frame ?R v g0 g1" by simp_all
    have "\<forall>m \<ge> Suc n1. remove_fuel m F stem v g0 = Some (Throws BadAlloc g1)"
    proof (intro allI impI)
      fix m assume "Suc n1 \<le> m"
      from Suc_le_D2[OF this] obtain k where k: "m = Suc k" "n1 \<le> k" by blast
      with run Throws p(1)
      have "remove_children (remove_fuel k F stem) F v ?cs g0 = Some (Throws BadAlloc g1)"
        by simp
      with unf[of k] k(1)
      show "remove_fuel m F stem v g0 = Some (Throws BadAlloc g1)" by simp
    qed
    with p show ?thesis by blast
  next
    case Undefined
    with post show ?thesis by simp
  qed
qed

lemma remove_table_spec:
  assumes wf: "wf_table stem g0" and vs: "v \<noteq> stem" and n0: "g0 v = Some n0"
  shows "\<exists>n. \<forall>m \<ge> n. remove_fuel m {} stem v g0
                = Some (Returns (restrict_table (survivors stem v g0) g0))"
  using remove_table_outcome[OF assms, of "{}"] by (auto simp: get_id_fault_def)

section \<open>The result of remove is well formed\<close>

lemma survivors_in_table:
  assumes wf: "wf_table stem g0" and x: "x \<in> survivors stem v g0"
  shows "g0 x \<noteq> None"
proof (cases "x = stem")
  case True
  with wf show ?thesis by (auto simp: wf_table_def I2_def)
next
  case False
  from survivors_parent[OF x False] obtain p where "(p, x) \<in> child_rel g0" by blast
  from wf_edge[OF wf this] show ?thesis by auto
qed

lemma restrict_table_Some:
  "restrict_table S g x = Some nd \<longleftrightarrow>
     x \<in> S \<and> (\<exists>n0. g x = Some n0 \<and>
        nd = n0\<lparr>parent_ids := parent_ids n0 \<inter> S,
                children_virus_ptrs := {h \<in> children_virus_ptrs n0. snd h \<in> S}\<rparr>)"
  by (auto simp: restrict_table_def)

lemma child_rel_restrict: "child_rel (restrict_table S g) \<subseteq> child_rel g"
proof
  fix e assume e: "e \<in> child_rel (restrict_table S g)"
  obtain p x where px: "e = (p, x)" by (cases e)
  with e have "(p, x) \<in> child_rel (restrict_table S g)" by simp
  then obtain pn h where h: "restrict_table S g p = Some pn" "h \<in> children_virus_ptrs pn" "snd h = x"
    unfolding child_rel_iff by blast
  from h(1) obtain n0 where n0: "g p = Some n0"
    "pn = n0\<lparr>parent_ids := parent_ids n0 \<inter> S,
             children_virus_ptrs := {h \<in> children_virus_ptrs n0. snd h \<in> S}\<rparr>"
    unfolding restrict_table_Some by blast
  with h(2) have "h \<in> children_virus_ptrs n0" by simp
  from child_relI[of g p n0 h] n0(1) this h(3) px show "e \<in> child_rel g" by simp
qed

lemma wf_restrict:
  assumes wf: "wf_table stem g0" and vs: "v \<noteq> stem"
  shows "wf_table stem (restrict_table (survivors stem v g0) g0)"
proof -
  let ?S = "survivors stem v g0"
  let ?g = "restrict_table ?S g0"
  from wf have i1: "I1 g0" and i2: "I2 stem g0" and i4: "I4 g0" and i5: "I5 g0"
    and cl: "child_links g0" and fs: "finite_sets g0"
    by (simp_all add: wf_table_def)
  have "I1 ?g"
    unfolding I1_def
  proof (intro allI impI, elim conjE)
    fix x nd p assume x: "?g x = Some nd" and p: "p \<in> parent_ids nd"
    from x obtain n0 where n0: "x \<in> ?S" "g0 x = Some n0"
      "nd = n0\<lparr>parent_ids := parent_ids n0 \<inter> ?S,
               children_virus_ptrs := {h \<in> children_virus_ptrs n0. snd h \<in> ?S}\<rparr>"
      unfolding restrict_table_Some by blast
    with p have p0: "p \<in> parent_ids n0" "p \<in> ?S" by simp_all
    from i1 n0(2) p0(1) obtain pn where pn: "g0 p = Some pn" "virus n0 \<in> children_virus_ptrs pn"
      unfolding I1_def by blast
    from i4 n0(2) have "snd (virus n0) = x" by (simp add: I4_def)
    with n0 pn p0 show "\<exists>pn. ?g p = Some pn \<and> virus nd \<in> children_virus_ptrs pn"
      by (simp add: restrict_table_def)
  qed
  moreover have "I2 stem ?g"
    using i2 stem_survives[of stem v g0] by (auto simp: I2_def restrict_table_def)
  moreover have "I3 stem ?g"
    unfolding I3_def
  proof (intro allI impI, elim conjE)
    fix x nd assume x: "?g x = Some nd" and xs: "x \<noteq> stem"
    from x obtain n0 where n0: "x \<in> ?S" "g0 x = Some n0"
      "nd = n0\<lparr>parent_ids := parent_ids n0 \<inter> ?S,
               children_virus_ptrs := {h \<in> children_virus_ptrs n0. snd h \<in> ?S}\<rparr>"
      unfolding restrict_table_Some by blast
    from survivors_parent[OF n0(1) xs] obtain p where p: "p \<in> ?S" "(p, x) \<in> child_rel g0"
      by blast
    from wf_edge[OF wf p(2)] n0(2) have "p \<in> parent_ids n0" by auto
    with p(1) n0(3) show "parent_ids nd \<noteq> {}" by auto
  qed
  moreover have "I4 ?g"
    using i4 by (auto simp: I4_def restrict_table_Some)
  moreover have "I5 ?g"
    using i5 child_rel_restrict[of ?S g0] unfolding I5_def by (rule acyclic_subset)
  moreover have "child_links ?g"
    unfolding child_links_def
  proof (intro allI impI, elim conjE)
    fix p pn h assume p: "?g p = Some pn" and h: "h \<in> children_virus_ptrs pn"
    from p obtain n0 where n0: "p \<in> ?S" "g0 p = Some n0"
      "pn = n0\<lparr>parent_ids := parent_ids n0 \<inter> ?S,
               children_virus_ptrs := {h \<in> children_virus_ptrs n0. snd h \<in> ?S}\<rparr>"
      unfolding restrict_table_Some by blast
    with h have h0: "h \<in> children_virus_ptrs n0" "snd h \<in> ?S" by simp_all
    from cl n0(2) h0(1) obtain hn where "g0 (snd h) = Some hn" "virus hn = h" "p \<in> parent_ids hn"
      unfolding child_links_def by blast
    with h0(2) n0(1) show "\<exists>nd. ?g (snd h) = Some nd \<and> virus nd = h \<and> p \<in> parent_ids nd"
      by (simp add: restrict_table_def)
  qed
  moreover have "finite_sets ?g"
  proof -
    have "dom ?g \<subseteq> dom g0" by (auto simp: restrict_table_def split: if_splits)
    with fs have "finite (dom ?g)" by (auto simp: finite_sets_def intro: finite_subset)
    moreover have "finite (parent_ids nd) \<and> finite (children_virus_ptrs nd)" if "?g x = Some nd" for x nd
    proof -
      from that obtain n0 where n0: "g0 x = Some n0"
        "nd = n0\<lparr>parent_ids := parent_ids n0 \<inter> ?S,
               children_virus_ptrs := {h \<in> children_virus_ptrs n0. snd h \<in> ?S}\<rparr>"
        unfolding restrict_table_Some by blast
      with fs show ?thesis by (auto simp: finite_sets_def)
    qed
    ultimately show ?thesis unfolding finite_sets_def by blast
  qed
  ultimately show ?thesis by (simp add: wf_table_def)
qed

section \<open>The bound on the recursion does not change the result\<close>

lemma remove_children_mono:
  assumes rec: "\<And>c g r. rec c g = Some r \<Longrightarrow> rec' c g = Some r"
  shows "remove_children rec F v cs g = Some r \<Longrightarrow> remove_children rec' F v cs g = Some r"
proof (induction cs arbitrary: g)
  case Nil
  then show ?case by simp
next
  case (Cons c cs)
  show ?case
  proof (cases "Get_Id_Fails v (snd c) \<in> F")
    case True
    with Cons.prems show ?thesis by (simp add: remove_children_get_id_fails)
  next
    case nf: False
    show ?thesis
    proof (cases "g (snd c)")
      case None
      with Cons.prems nf show ?thesis by (simp add: remove_children_absent)
    next
      case (Some cn)
      let ?g1 = "g(snd c \<mapsto> cn\<lparr>parent_ids := parent_ids cn - {v}\<rparr>)"
      show ?thesis
      proof (cases "parent_ids cn - {v} = {}")
        case False
        have k: "remove_children rc F v (c # cs) g = remove_children rc F v cs ?g1" for rc
          by (rule remove_children_keep[where g=g and c=c and v=v, OF nf Some False])
        from Cons.prems have "remove_children rec F v cs ?g1 = Some r" unfolding k .
        from Cons.IH[OF this] show ?thesis unfolding k .
      next
        case True
        show ?thesis
        proof (cases "rec (snd c) ?g1")
          case None
          from remove_children_rec_None[where g=g and c=c and v=v and rec=rec, OF nf Some True None]
            Cons.prems show ?thesis by simp
        next
          case r1: (Some r1)
          from rec[OF r1] have r1': "rec' (snd c) ?g1 = Some r1" .
          show ?thesis
          proof (cases r1)
            case (Returns g2)
            from remove_children_rec_Returns[where g=g and c=c and v=v and rec=rec,
                  OF nf Some True r1[unfolded Returns]] Cons.prems
            have a: "(if g2 v = None then Some Undefined else remove_children rec F v cs g2) = Some r"
              by simp
            have "(if g2 v = None then Some Undefined else remove_children rec' F v cs g2) = Some r"
            proof (cases "g2 v = None")
              case True
              with a show ?thesis by simp
            next
              case False
              with a have "remove_children rec F v cs g2 = Some r" by simp
              from Cons.IH[OF this] False show ?thesis by auto
            qed
            with remove_children_rec_Returns[where g=g and c=c and v=v and rec=rec',
                  OF nf Some True r1'[unfolded Returns]]
            show ?thesis by simp
          next
            case (Throws e g2)
            from remove_children_rec_Throws[where g=g and c=c and v=v and rec=rec,
                  OF nf Some True r1[unfolded Throws]]
              remove_children_rec_Throws[where g=g and c=c and v=v and rec=rec',
                  OF nf Some True r1'[unfolded Throws]] Cons.prems
            show ?thesis by simp
          next
            case Undefined
            from remove_children_rec_Undefined[where g=g and c=c and v=v and rec=rec,
                  OF nf Some True r1[unfolded Undefined]]
              remove_children_rec_Undefined[where g=g and c=c and v=v and rec=rec',
                  OF nf Some True r1'[unfolded Undefined]] Cons.prems
            show ?thesis by simp
          qed
        qed
      qed
    qed
  qed
qed

lemma remove_fuel_Suc:
  "remove_fuel n F stem v g = Some r \<Longrightarrow> remove_fuel (Suc n) F stem v g = Some r"
proof (induction n arbitrary: v g r)
  case 0
  then show ?case by simp
next
  case (Suc n)
  show ?case
  proof (cases "v = stem")
    case True
    with Suc.prems show ?thesis by (simp add: remove_fuel_stem)
  next
    case vs: False
    show ?thesis
    proof (cases "g v")
      case None
      with Suc.prems vs show ?thesis by (simp add: remove_fuel_absent)
    next
      case (Some nd)
      show ?thesis
      proof (cases "sorted_list_of_set (parent_ids nd) \<noteq> [] \<and> Parent_Its_Fails v \<in> F")
        case True
        with Suc.prems remove_fuel_parent_its_fails[where g=g and v=v and F=F, OF vs Some]
        show ?thesis by simp
      next
        case False
        then have nopf: "sorted_list_of_set (parent_ids nd) = [] \<or> Parent_Its_Fails v \<notin> F"
          by blast
        let ?cs = "sorted_list_of_set (children_virus_ptrs nd)"
        note unf = remove_fuel_present[where g=g and v=v and stem=stem and F=F, OF vs Some nopf]
        from Suc.prems unf[of n]
        obtain r1 where r1: "remove_children (remove_fuel n F stem) F v ?cs g = Some r1"
          by (cases "remove_children (remove_fuel n F stem) F v ?cs g") auto
        have "remove_children (remove_fuel (Suc n) F stem) F v ?cs g = Some r1"
          using r1 by (rule remove_children_mono[rotated]) (rule Suc.IH)
        with r1 Suc.prems unf[of n] unf[of "Suc n"]
        show ?thesis by simp
      qed
    qed
  qed
qed

lemma remove_fuel_mono:
  "remove_fuel n F stem v g = Some r \<Longrightarrow> n \<le> m \<Longrightarrow> remove_fuel m F stem v g = Some r"
  by (induction m) (auto simp: le_Suc_eq remove_fuel_Suc)

section \<open>create and connect keep a well-formed table well formed\<close>







section \<open>Cascading removal\<close>

lemma example_SXY_calls:
  "run_calls [Create 1 None ''X'' [''S''], Create 2 None ''Y'' [''X'']] (VirusGenealogy 0 ''S'')
     = Some example_SXY"
  by (simp add: example_SXY_def VirusGenealogy_def create_def create_table_def Node_def modify_def
        fun_upd_twist)

lemma well_formed_example_SXY: "well_formed example_SXY"
proof -
  let ?g = "graph example_SXY"
  have "I1 ?g" by (auto simp: I1_def example_SXY_def split: if_splits)
  moreover have "I2 ''S'' ?g" by (simp add: I2_def example_SXY_def)
  moreover have "I3 ''S'' ?g" by (auto simp: I3_def example_SXY_def split: if_splits)
  moreover have "I4 ?g" by (auto simp: I4_def example_SXY_def split: if_splits)
  moreover have "I5 ?g"
    unfolding I5_def
  proof (rule acyclic_by_rank)
    fix p c assume "(p, c) \<in> child_rel ?g"
    then show "(if p = ''S'' then 0 else if p = ''X'' then 1 else 2 :: nat)
                 < (if c = ''S'' then 0 else if c = ''X'' then 1 else 2)"
      by (auto simp: child_rel_iff example_SXY_def split: if_splits)
  qed
  moreover have "child_links ?g" by (auto simp: child_links_def example_SXY_def split: if_splits)
  moreover have "finite_sets ?g" by (auto simp: finite_sets_def example_SXY_def split: if_splits)
  ultimately show ?thesis by (simp add: well_formed_def wf_table_def example_SXY_def)
qed

text \<open>The first example of claim C1: \<open>Y\<close> has no other parent and goes with \<open>X\<close>.\<close>

lemma remove_cascade_example:
  "\<exists>vg'. run_calls [Create a1 None ''X'' [''S''], Create a2 None ''Y'' [''X''], Remove 2 {} ''X'']
            (VirusGenealogy a0 ''S'') = Some vg' \<and>
         \<not> exists ''X'' vg' \<and> \<not> exists ''Y'' vg' \<and> exists ''S'' vg'"
  by (simp add: VirusGenealogy_def create_def create_table_def Node_def modify_def
        remove_def remove_fuel.simps remove_children.simps numeral_2_eq_2 exists_def)

text \<open>The second example of claim C1: \<open>C\<close> keeps the parent \<open>B\<close> and stays.\<close>

lemma remove_no_cascade_example:
  "\<exists>vg' cn. run_calls [Create a1 None ''A'' [''S''], Create a2 None ''B'' [''S''],
                      Create a3 None ''C'' [''A'', ''B''], Remove 2 {} ''A'']
               (VirusGenealogy a0 ''S'') = Some vg' \<and>
            graph vg' ''C'' = Some cn \<and> parent_ids cn = {''B''} \<and>
            \<not> exists ''A'' vg' \<and> exists ''S'' vg' \<and> exists ''B'' vg'"
  by (simp add: VirusGenealogy_def create_def create_table_def Node_def modify_def
        remove_def remove_fuel.simps remove_children.simps numeral_2_eq_2 exists_def)

lemma example_cycle_calls:
  "run_calls [Create 1 None ''P'' [''S''], Create 2 None ''A'' [''P''], Create 3 None ''B'' [''A''],
              Connect None ''A'' ''B''] (VirusGenealogy 0 ''S'') = Some example_cycle"
  by (simp add: example_cycle_def VirusGenealogy_def create_def create_table_def Node_def
        connect_def connect_table_def modify_def fun_upd_twist insert_commute)

lemma rtrancl_from_outside:
  assumes "a \<notin> Domain r" and "(a, b) \<in> r\<^sup>*"
  shows "b = a"
  using assms(2,1) by (cases rule: converse_rtranclE) auto

text \<open>
  Claim C1, as stated, fails on a table with a cycle: after the calls of
  \<open>example_cycle_calls\<close>, \<open>remove("P")\<close> returns and leaves \<open>A\<close> and \<open>B\<close> in the table,
  holding each other, though no path from the root reaches them.
\<close>

theorem remove_leaves_cycle_counterexample:
  "remove 2 {} ''P'' example_cycle = Some (Returns example_cycle_after) \<and>
   exists ''A'' example_cycle_after \<and> exists ''B'' example_cycle_after \<and>
   (''S'', ''A'') \<notin> (child_rel (graph example_cycle_after))\<^sup>* \<and>
   (''S'', ''B'') \<notin> (child_rel (graph example_cycle_after))\<^sup>*"
proof -
  have r: "remove 2 {} ''P'' example_cycle = Some (Returns example_cycle_after)"
    by (simp add: remove_def example_cycle_def example_cycle_after_def
          remove_fuel.simps remove_children.simps numeral_2_eq_2 fun_upd_twist)
  have "''S'' \<notin> Domain (child_rel (graph example_cycle_after))"
    by (auto simp: child_rel_iff example_cycle_after_def split: if_splits)
  from rtrancl_from_outside[OF this]
  have "(''S'', x) \<in> (child_rel (graph example_cycle_after))\<^sup>* \<Longrightarrow> x = ''S''" for x .
  then have "(''S'', ''A'') \<notin> (child_rel (graph example_cycle_after))\<^sup>*"
    "(''S'', ''B'') \<notin> (child_rel (graph example_cycle_after))\<^sup>*" by auto
  with r show ?thesis by (simp add: exists_def example_cycle_after_def)
qed

text \<open>
  Claim C1, amended. On every well-formed object (I1 to I4, edges recorded in both
  directions, finite containers, and no cycle, I5) and for every identifier in the table
  other than the root, \<open>remove\<close> returns, and the table it leaves is the old table cut down
  to the nodes that are still reachable from the root once the removed node and its edges are
  taken away: exactly these nodes remain, with their handles, and with the parents and
  children that remain. In particular the two examples of the claim hold, for any addresses
  of the handles.
\<close>

theorem remove_exact:
  "(well_formed vg \<and> vid \<noteq> stem_id vg \<and> exists vid vg \<longrightarrow>
      (\<exists>n vg'. (\<forall>m \<ge> n. remove m {} vid vg = Some (Returns vg')) \<and>
         stem_id vg' = stem_id vg \<and>
         (\<forall>x. exists x vg' \<longleftrightarrow> x \<in> survivors (stem_id vg) vid (graph vg)) \<and>
         graph vg' = restrict_table (survivors (stem_id vg) vid (graph vg)) (graph vg))) \<and>
   (\<exists>vg'. run_calls [Create a1 None ''X'' [''S''], Create a2 None ''Y'' [''X''], Remove 2 {} ''X'']
            (VirusGenealogy a0 ''S'') = Some vg' \<and>
         \<not> exists ''X'' vg' \<and> \<not> exists ''Y'' vg' \<and> exists ''S'' vg') \<and>
   (\<exists>vg' cn. run_calls [Create a1 None ''A'' [''S''], Create a2 None ''B'' [''S''],
                      Create a3 None ''C'' [''A'', ''B''], Remove 2 {} ''A'']
               (VirusGenealogy a0 ''S'') = Some vg' \<and>
            graph vg' ''C'' = Some cn \<and> parent_ids cn = {''B''} \<and>
            \<not> exists ''A'' vg' \<and> exists ''S'' vg' \<and> exists ''B'' vg')"
proof (intro conjI impI)
  assume a: "well_formed vg \<and> vid \<noteq> stem_id vg \<and> exists vid vg"
  let ?S = "survivors (stem_id vg) vid (graph vg)"
  let ?vg' = "vg\<lparr>graph := restrict_table ?S (graph vg)\<rparr>"
  from a have wf: "wf_table (stem_id vg) (graph vg)" and vs: "vid \<noteq> stem_id vg"
    by (simp_all add: well_formed_def)
  from a obtain n0 where n0: "graph vg vid = Some n0" by (auto simp: exists_def)
  from remove_table_spec[OF wf vs n0] obtain n where
    "\<forall>m \<ge> n. remove_fuel m {} (stem_id vg) vid (graph vg) = Some (Returns (restrict_table ?S (graph vg)))"
    by blast
  then have run: "\<forall>m \<ge> n. remove m {} vid vg = Some (Returns ?vg')" by (simp add: remove_def)
  have "exists x ?vg' \<longleftrightarrow> x \<in> ?S" for x
    using survivors_in_table[OF wf, of x vid]
    by (auto simp: exists_def restrict_table_def)
  with run show "\<exists>n vg'. (\<forall>m \<ge> n. remove m {} vid vg = Some (Returns vg')) \<and>
         stem_id vg' = stem_id vg \<and>
         (\<forall>x. exists x vg' \<longleftrightarrow> x \<in> ?S) \<and>
         graph vg' = restrict_table ?S (graph vg)"
    by (intro exI[of _ n] exI[of _ ?vg']) simp
next
  show "\<exists>vg'. run_calls [Create a1 None ''X'' [''S''], Create a2 None ''Y'' [''X''], Remove 2 {} ''X'']
            (VirusGenealogy a0 ''S'') = Some vg' \<and>
         \<not> exists ''X'' vg' \<and> \<not> exists ''Y'' vg' \<and> exists ''S'' vg'"
    by (rule remove_cascade_example)
next
  show "\<exists>vg' cn. run_calls [Create a1 None ''A'' [''S''], Create a2 None ''B'' [''S''],
                      Create a3 None ''C'' [''A'', ''B''], Remove 2 {} ''A'']
               (VirusGenealogy a0 ''S'') = Some vg' \<and>
            graph vg' ''C'' = Some cn \<and> parent_ids cn = {''B''} \<and>
            \<not> exists ''A'' vg' \<and> exists ''S'' vg' \<and> exists ''B'' vg'"
    by (rule remove_no_cascade_example)
qed

theorem remove_exact_witness:
  "well_formed example_SXY \<and> ''X'' \<noteq> stem_id example_SXY \<and> exists ''X'' example_SXY \<and>
   (\<exists>n vg'. (\<forall>m \<ge> n. remove m {} ''X'' example_SXY = Some (Returns vg')) \<and>
      (\<forall>x. exists x vg' \<longleftrightarrow> x \<in> survivors ''S'' ''X'' (graph example_SXY)))"
proof -
  have s: "stem_id example_SXY = ''S''" by (simp add: example_SXY_def)
  have h: "''X'' \<noteq> stem_id example_SXY" "exists ''X'' example_SXY"
    by (simp_all add: example_SXY_def exists_def)
  from remove_exact [where vg=example_SXY and vid="''X''" and ?a0.0=0 and ?a1.0=0 and ?a2.0=0
         and ?a3.0=0] well_formed_example_SXY h
  have "\<exists>n vg'. (\<forall>m \<ge> n. remove m {} ''X'' example_SXY = Some (Returns vg')) \<and>
         stem_id vg' = stem_id example_SXY \<and>
         (\<forall>x. exists x vg' \<longleftrightarrow> x \<in> survivors (stem_id example_SXY) ''X'' (graph example_SXY)) \<and>
         graph vg' = restrict_table (survivors (stem_id example_SXY) ''X'' (graph example_SXY))
                       (graph example_SXY)"
    by blast
  then show ?thesis using well_formed_example_SXY h unfolding s by blast
qed


section \<open>The invariants after every call\<close>

lemma lift_Undefined: "lift vg r = Undefined \<longleftrightarrow> r = Undefined"
  by (cases r) simp_all






text \<open>
  The table that a cascade started at \<open>v\<close> on a well-formed table leaves when it throws
  satisfies I1, I2 and I4, and I3 too unless a re-insertion in a handler failed.
\<close>

lemma thrown_invariants:
  assumes wf: "wf_table stem g0" and vs: "v \<noteq> stem" and n0: "g0 v = Some n0"
    and th: "thrown stem g0 {v} F g'" and v': "g' v \<noteq> None"
    and f: "frame (child_rel g0) v g0 g'"
  shows "I1 g' \<and> I2 stem g' \<and> I4 g' \<and> ((\<forall>a b. Reinsert_Fails a b \<notin> F) \<longrightarrow> I3 stem g')"
proof -
  let ?R = "child_rel g0"
  from wf have i: "I1 g0" "I2 stem g0" "I3 stem g0" "I4 g0" by (simp_all add: wf_table_def)
  have "I1 g'"
    unfolding I1_def
  proof (intro allI impI, elim conjE)
    fix x nd p assume x: "g' x = Some nd" "p \<in> parent_ids nd"
    from thrown_node[OF th x(1)] x(2) obtain nx where nx: "g0 x = Some nx" "virus nd = virus nx"
      "p \<in> parent_ids nx" by blast
    with i(1) obtain p0 where p0: "g0 p = Some p0" "virus nx \<in> children_virus_ptrs p0"
      unfolding I1_def by blast
    from x have "live g' p x" by (rule liveI)
    from thrown_parent[OF th this] obtain pn where pn: "g' p = Some pn" by auto
    from thrown_node[OF th pn] p0(1) have "children_virus_ptrs pn = children_virus_ptrs p0" by auto
    with pn p0(2) nx(2) show "\<exists>pn. g' p = Some pn \<and> virus nd \<in> children_virus_ptrs pn" by simp
  qed
  moreover have "I2 stem g'"
  proof -
    from i(2) obtain s0 where s0: "g0 stem = Some s0" "parent_ids s0 = {}" unfolding I2_def by blast
    have "g' stem \<noteq> None"
      using f _ stem_not_below[OF wf vs] by (rule frame_stays) (use s0 in simp)
    then obtain sn where sn: "g' stem = Some sn" by auto
    from thrown_node[OF th sn] s0 have "parent_ids sn = {}" by auto
    with sn show ?thesis unfolding I2_def by blast
  qed
  moreover have "I4 g'"
    unfolding I4_def
  proof (intro allI impI)
    fix x nd assume x: "g' x = Some nd"
    from thrown_node[OF th x] obtain nx where "g0 x = Some nx" "virus nd = virus nx" by blast
    with i(4) show "snd (virus nd) = x" unfolding I4_def by auto
  qed
  moreover have "I3 stem g'" if nr: "\<forall>a b. Reinsert_Fails a b \<notin> F"
    unfolding I3_def
  proof (intro allI impI, elim conjE)
    fix x nd assume x: "g' x = Some nd" "x \<noteq> stem"
    show "parent_ids nd \<noteq> {}"
    proof (cases "x = v")
      case False
      then have "x \<notin> {v}" by simp
      from thrown_orphan[OF th nr x(1) this x(2)] show ?thesis .
    next
      case True
      from i(3) n0 vs obtain p where p: "p \<in> parent_ids n0" unfolding I3_def by blast
      from wf_parent_edge[OF wf n0 p] have e: "(p, v) \<in> ?R" .
      have "(v, p) \<notin> ?R\<^sup>*"
      proof
        assume "(v, p) \<in> ?R\<^sup>*"
        with wf_no_cycle[OF wf, of p v] e show False by auto
      qed
      with frame_kept[OF f n0 x(1)[unfolded True]] p show ?thesis by auto
    qed
  qed
  ultimately show ?thesis by blast
qed

text \<open>
  \<open>remove\<close> on a well-formed table, whatever the faults: no undefined behaviour; I1, I2 and
  I4 afterwards, and I3 unless a re-insertion in a handler failed; and a well-formed table
  afterwards when obtaining the identifier of a child never fails.
\<close>

lemma remove_fuel_inv:
  assumes wf: "wf_table stem g" and r: "remove_fuel n F stem v g = Some r"
  shows "r \<noteq> Undefined \<and>
         (\<forall>g'. state_after (Some r) = Some g' \<longrightarrow>
            I1 g' \<and> I2 stem g' \<and> I4 g' \<and> ((\<forall>a b. Reinsert_Fails a b \<notin> F) \<longrightarrow> I3 stem g') \<and>
            (\<not> get_id_fault F \<longrightarrow> wf_table stem g'))"
proof -
  from wf have i: "I1 g" "I2 stem g" "I3 stem g" "I4 g" by (simp_all add: wf_table_def)
  from r obtain k where k: "n = Suc k" by (cases n) auto
  show ?thesis
  proof (cases "v = stem")
    case True
    with r k have "r = Throws TriedToRemoveStemVirus g" by (simp add: remove_fuel_stem)
    with wf i show ?thesis by simp
  next
    case vs: False
    show ?thesis
    proof (cases "g v")
      case None
      with r k vs have "r = Throws VirusNotFound g" by (simp add: remove_fuel_absent)
      with wf i show ?thesis by simp
    next
      case (Some n0)
      from remove_table_outcome[OF wf vs Some, of F] obtain n1 r1 where
        n1: "\<forall>m \<ge> n1. remove_fuel m F stem v g = Some r1"
        and r1: "r1 = Returns (restrict_table (survivors stem v g) g) \<or>
                 r1 = Throws BadAlloc g \<and> Parent_Its_Fails v \<in> F \<or>
                 get_id_fault F \<and>
                   (\<exists>g'. r1 = Throws BadAlloc g' \<and> thrown stem g {v} F g' \<and> g' v \<noteq> None \<and>
                         frame (child_rel g) v g g')"
        by blast
      from remove_fuel_mono[OF r, of "max n n1"] n1 have rr: "r = r1" by simp
      from r1 show ?thesis
      proof (elim disjE conjE exE)
        assume "r1 = Returns (restrict_table (survivors stem v g) g)"
        with rr wf_restrict[OF wf vs] show ?thesis by (simp add: wf_table_def)
      next
        assume "r1 = Throws BadAlloc g"
        with rr wf i show ?thesis by simp
      next
        fix g1
        assume F: "get_id_fault F" and g1: "r1 = Throws BadAlloc g1"
          "thrown stem g {v} F g1" "g1 v \<noteq> None" "frame (child_rel g) v g g1"
        from thrown_invariants[OF wf vs Some g1(2,3,4)] rr g1(1) F show ?thesis by simp
      qed
    qed
  qed
qed

text \<open>On a well-formed table \<open>remove\<close> with no fault throws only at the top, before any change.\<close>

lemma remove_fuel_throws_unchanged:
  assumes wf: "wf_table stem g" and r: "remove_fuel n {} stem v g = Some (Throws e g')"
  shows "g' = g \<and> (e = TriedToRemoveStemVirus \<and> v = stem \<or> e = VirusNotFound \<and> g v = None)"
proof -
  from r obtain k where k: "n = Suc k" by (cases n) auto
  show ?thesis
  proof (cases "v = stem")
    case True
    with r k show ?thesis by (simp add: remove_fuel_stem)
  next
    case vs: False
    show ?thesis
    proof (cases "g v")
      case None
      with r k vs show ?thesis by (simp add: remove_fuel_absent)
    next
      case (Some n0)
      from remove_table_spec[OF wf vs Some] obtain n1 where
        n1: "\<forall>m \<ge> n1. remove_fuel m {} stem v g
               = Some (Returns (restrict_table (survivors stem v g) g))" by blast
      from remove_fuel_mono[OF r, of "max n n1"] n1 show ?thesis by simp
    qed
  qed
qed

lemma remove_fuel_total:
  assumes wf: "wf_table stem g"
  shows "\<exists>n r. r \<noteq> Undefined \<and> (\<forall>m \<ge> n. remove_fuel m F stem v g = Some r)"
proof -
  have "wf ((child_rel g)\<inverse>)" using wf by (rule wf_child_rel_converse)
  from remove_fuel_returns[OF this, of g F stem v] obtain n r where
    n: "\<forall>m \<ge> n. remove_fuel m F stem v g = Some r" by blast
  then have "remove_fuel n F stem v g = Some r" by simp
  from remove_fuel_inv[OF wf this] n show ?thesis by blast
qed

text \<open>A new object is well formed.\<close>

lemma well_formed_init: "well_formed (VirusGenealogy a stem)"
proof -
  let ?g = "graph (VirusGenealogy a stem)"
  have "child_rel ?g = {}"
    by (auto simp: child_rel_iff VirusGenealogy_def Node_def split: if_splits)
  then have "I5 ?g" by (simp add: I5_def acyclic_def)
  moreover have "I1 ?g" "I3 stem ?g" "I4 ?g" "child_links ?g" "finite_sets ?g"
    by (auto simp: I1_def I3_def I4_def child_links_def finite_sets_def VirusGenealogy_def Node_def
          split: if_splits)
  moreover have "I2 stem ?g" by (simp add: I2_def VirusGenealogy_def Node_def)
  ultimately show ?thesis by (simp add: well_formed_def wf_table_def VirusGenealogy_def)
qed




text \<open>
  When the recursive call for \<open>Y\<close> throws and the handler of line 267 fails to put \<open>X\<close>
  back, \<open>Y\<close> stays in the table without a parent, and I3 does not hold.
\<close>

lemma remove_reinsert_fails_orphan:
  "remove 2 {Get_Id_Fails ''Y'' ''Z'', Reinsert_Fails ''X'' ''Y''} ''X'' example_family
     = Some (Throws BadAlloc example_family_orphan) \<and>
   \<not> I3 ''S'' (graph example_family_orphan)"
proof -
  have cs: "sorted_list_of_set {(2::nat, ''C''), (3, ''Y'')} = [(2, ''C''), (3, ''Y'')]"
    by simp
  have r: "remove 2 {Get_Id_Fails ''Y'' ''Z'', Reinsert_Fails ''X'' ''Y''} ''X'' example_family
             = Some (Throws BadAlloc example_family_orphan)"
    by (simp add: remove_def example_family_def example_family_orphan_def cs
          remove_fuel.simps remove_children.simps numeral_2_eq_2 fun_upd_twist)
  have "graph example_family_orphan ''Y''
          = Some \<lparr>virus = (3, ''Y''), parent_ids = {}, children_virus_ptrs = {(4, ''Z'')}\<rparr>"
    by (simp add: example_family_orphan_def)
  then have "\<not> I3 ''S'' (graph example_family_orphan)"
    unfolding I3_def by (intro notI) (erule allE[of _ "''Y''"], auto)
  with r show ?thesis by simp
qed

text \<open>
  After a failure of \<open>push_back\<close> in \<open>create\<close>, I1 to I4 hold but a child set holds the
  handle of a node that is not in the table; a later \<open>remove\<close> of the owner dereferences
  \<open>end()\<close> at line 262.
\<close>

lemma remove_after_push_back_undefined:
  "invariants ''S'' (graph example_AB_stale) \<and> \<not> well_formed example_AB_stale \<and>
   remove 1 {} ''B'' example_AB_stale = Some Undefined"
proof -
  let ?g = "graph example_AB_stale"
  have "I1 ?g" by (auto simp: I1_def example_AB_stale_def split: if_splits)
  moreover have "I2 ''S'' ?g" by (simp add: I2_def example_AB_stale_def)
  moreover have "I3 ''S'' ?g" by (auto simp: I3_def example_AB_stale_def split: if_splits)
  moreover have "I4 ?g" by (auto simp: I4_def example_AB_stale_def split: if_splits)
  moreover have "\<not> child_links ?g"
    unfolding child_links_def
    by (intro notI) (erule allE[of _ "''B''"], auto simp: example_AB_stale_def)
  moreover have "remove 1 {} ''B'' example_AB_stale = Some Undefined"
    by (simp add: remove_def example_AB_stale_def remove_fuel.simps remove_children.simps)
  ultimately show ?thesis by (simp add: invariants_def well_formed_def wf_table_def)
qed



section \<open>remove terminates\<close>

text \<open>
  Claim C10. On an object whose containers are finite and whose child edges form no cycle,
  \<open>remove\<close> terminates, whatever faults are injected: there is a depth of recursion that it
  never exceeds, and with any bound from that depth on the model gives one and the same
  result. On a well-formed object that result is a return or a throw, never undefined
  behaviour.
\<close>

theorem remove_terminates:
  "(finite_sets (graph vg) \<and> I5 (graph vg) \<longrightarrow>
      (\<exists>n r. \<forall>m \<ge> n. remove m F vid vg = Some r)) \<and>
   (well_formed vg \<longrightarrow>
      (\<exists>n r. r \<noteq> Undefined \<and> (\<forall>m \<ge> n. remove m F vid vg = Some r)))"
proof (intro conjI impI)
  assume a: "finite_sets (graph vg) \<and> I5 (graph vg)"
  have "wf ((child_rel (graph vg))\<inverse>)"
    using a finite_child_rel[of "graph vg"] by (simp add: I5_def finite_acyclic_wf_converse)
  from remove_fuel_returns[OF this, of "graph vg" F "stem_id vg" vid]
  obtain n r where "\<forall>m \<ge> n. remove_fuel m F (stem_id vg) vid (graph vg) = Some r" by blast
  then have "\<forall>m \<ge> n. remove m F vid vg = Some (lift vg r)" by (simp add: remove_def)
  then show "\<exists>n r. \<forall>m \<ge> n. remove m F vid vg = Some r" by blast
next
  assume "well_formed vg"
  then have wf: "wf_table (stem_id vg) (graph vg)" by (simp add: well_formed_def)
  from remove_fuel_total[OF wf, of F vid] obtain n r where
    "r \<noteq> Undefined" "\<forall>m \<ge> n. remove_fuel m F (stem_id vg) vid (graph vg) = Some r" by blast
  then have "lift vg r \<noteq> Undefined \<and> (\<forall>m \<ge> n. remove m F vid vg = Some (lift vg r))"
    by (simp add: remove_def lift_Undefined)
  then show "\<exists>n r. r \<noteq> Undefined \<and> (\<forall>m \<ge> n. remove m F vid vg = Some r)" by blast
qed

text \<open>
  In \<open>example_SXY\<close>, \<open>remove("X")\<close> makes a recursive call for \<open>Y\<close>: with the bound 1 on
  the depth the model does not finish.
\<close>

theorem remove_terminates_witness:
  "finite_sets (graph example_SXY) \<and> I5 (graph example_SXY) \<and> well_formed example_SXY \<and>
   remove 1 {} ''X'' example_SXY = None \<and>
   (\<exists>n r. r \<noteq> Undefined \<and> (\<forall>m \<ge> n. remove m {} ''X'' example_SXY = Some r))"
proof -
  have w: "well_formed example_SXY" by (rule well_formed_example_SXY)
  then have fa: "finite_sets (graph example_SXY) \<and> I5 (graph example_SXY)"
    by (simp add: well_formed_def wf_table_def)
  have deep: "remove 1 {} ''X'' example_SXY = None"
    by (simp add: remove_def example_SXY_def remove_fuel.simps remove_children.simps)
  from remove_terminates [of example_SXY "{}" "''X''"] w fa deep show ?thesis by blast
qed

end
